theory Spec2Isabelle
  imports Main "HOL-Library.Char_ord" "HOL-Library.List_Lexorder"
begin

section \<open>The algorithm cache and engine of src/libstate/engine/engine.cpp\<close>

text \<open>
  The engine keeps, for each of its four primitive kinds, a cache that maps a name to a
  raw pointer to a heap-allocated prototype object. The model makes the heap explicit:
  a pointer is an address (\<open>0\<close> is the null pointer), the world records which
  algorithm and mutex objects are alive, and a trace lists the observable events in the
  order in which they happen (lock and unlock, object construction and destruction,
  assignment into a cache's map, provider searches, mutex construction). What C++ leaves undefined (a call through a null cache pointer,
  a call or a \<open>delete\<close> on an object that is no longer alive) is a \<open>fault\<close>
  result, so that every theorem that returns \<open>Inr\<close> also says that no such step
  was taken. The four primitive kinds have unrelated C++ types; the model keeps their
  objects in one heap and tells the caches apart by what they own.
\<close>

subsection \<open>Heap, events and faults\<close>

type_synonym ptr = nat

datatype kind = Block_Cipher | Stream_Cipher | Hash_Function | Message_Auth_Code

datatype event =
    Mutex_Make ptr
  | Mutex_Lock ptr
  | Mutex_Unlock ptr
  | Mutex_Delete ptr
  | Algo_New ptr
  | Algo_Delete ptr
  | Map_Assign string ptr
  | Search kind string

text \<open>
  \<open>Null_Cache\<close>: a member function of a cache is called through a null cache pointer.
  \<open>Dead_Object\<close>: a member function or \<open>delete\<close> is applied to a pointer whose
  object is not alive. Both are undefined behaviour in C++. engine.cpp has no \<open>throw\<close>,
  assertion or other checked error, so there is no constructor for a signalled error.
\<close>

datatype fault = Null_Cache | Dead_Object

text \<open>
  \<open>algos\<close> maps the address of every live algorithm object to what its \<open>name()\<close>
  returns; \<open>mutexes\<close> holds the addresses of the live mutex objects; \<open>next_addr\<close>
  is the allocator's counter (addresses are not reused, so an address identifies one
  object for the whole run).
\<close>

record world =
  algos :: "ptr \<rightharpoonup> string"
  mutexes :: "ptr set"
  next_addr :: nat
  trace :: "event list"

definition emit :: "event \<Rightarrow> world \<Rightarrow> world" where
  "emit ev w = w\<lparr>trace := trace w @ [ev]\<rparr>"

text \<open>\<open>new T\<close> for an algorithm object whose \<open>name()\<close> is \<open>nm\<close>.\<close>

definition new_algo :: "string \<Rightarrow> world \<Rightarrow> ptr \<times> world" where
  "new_algo nm w =
     (let p = Suc (next_addr w)
      in (p, emit (Algo_New p) (w\<lparr>algos := (algos w)(p \<mapsto> nm), next_addr := p\<rparr>)))"

text \<open>
  Modelled from the spec: the algorithm classes are declared outside engine.cpp. The spec
  (section 6) says that "every constructible prototype instance can report its own
  canonical name": \<open>algo->name()\<close> reads the name of the live object behind the
  pointer.
\<close>

definition name_of :: "ptr \<Rightarrow> world \<Rightarrow> fault + string" where
  "name_of algo w = (case algos w algo of None \<Rightarrow> Inl Dead_Object | Some nm \<Rightarrow> Inr nm)"

text \<open>\<open>delete p\<close> for an algorithm pointer: nothing for the null pointer.\<close>

definition delete_algo :: "ptr \<Rightarrow> world \<Rightarrow> fault + world" where
  "delete_algo p w =
     (if p = 0 then Inr w
      else case algos w p of
             None \<Rightarrow> Inl Dead_Object
           | Some nm \<Rightarrow> Inr (emit (Algo_Delete p) (w\<lparr>algos := (algos w)(p := None)\<rparr>)))"


text \<open>
  Modelled from the spec: \<open>Mutex_Factory::make\<close> is declared outside engine.cpp. The
  spec (section 6) says that it "supplies one fresh, independent lock per call":
  \<open>mf_make\<close> is a factory that allocates a new mutex object and records the call.
\<close>

definition mf_make :: "world \<Rightarrow> ptr \<times> world" where
  "mf_make w =
     (let m = Suc (next_addr w)
      in (m, emit (Mutex_Make m) (w\<lparr>mutexes := insert m (mutexes w), next_addr := m\<rparr>)))"

subsection \<open>The map from names to pointers\<close>

text \<open>
  \<open>std::map<std::string, T*>\<close> is a list of pairs kept in increasing key order, the
  order in which the destructor walks it. \<open>map_of\<close> is \<open>mappings.find(name)\<close>
  (\<open>None\<close> for \<open>end()\<close>); \<open>map_assign\<close> is \<open>mappings[name] = algo\<close>.
\<close>

fun map_assign :: "string \<Rightarrow> ptr \<Rightarrow> (string \<times> ptr) list \<Rightarrow> (string \<times> ptr) list" where
  "map_assign k v [] = [(k, v)]"
| "map_assign k v ((k', v') # m) =
     (if k = k' then (k, v) # m
      else if k < k' then (k, v) # (k', v') # m
      else (k', v') # map_assign k v m)"

text \<open>
  Modelled from the spec: \<open>search_map\<close> comes from botan/stl_util.h, outside
  engine.cpp. The spec (section 4.1) says of \<open>get\<close> that it "performs
  the lookup" and "returns nothing if no entry exists for name": the value mapped to
  the key, or the null pointer.
\<close>

definition search_map :: "(string \<times> ptr) list \<Rightarrow> string \<Rightarrow> ptr" where
  "search_map m key = (case map_of m key of None \<Rightarrow> 0 | Some v \<Rightarrow> v)"

subsection \<open>Algorithm_Cache_Impl\<close>

record cache =
  mutex :: ptr
  mappings :: "(string \<times> ptr) list"

text \<open>The constructor \<open>Algorithm_Cache_Impl(Mutex* m)\<close>: the map starts empty.\<close>

definition Algorithm_Cache_Impl :: "ptr \<Rightarrow> cache" where
  "Algorithm_Cache_Impl m = \<lparr>mutex = m, mappings = []\<rparr>"

text \<open>
  \<open>T* get(const std::string& name) const\<close>.

  Modelled from the spec: \<open>Mutex_Holder\<close> is declared outside engine.cpp. The spec
  (section 4.1) says that \<open>get\<close> "acquires the cache's lock, performs the lookup,
  releases the lock before returning" and that \<open>add\<close> "acquires the lock, releases
  on all exit paths": a \<open>Mutex_Lock\<close> event where the holder is declared, a
  \<open>Mutex_Unlock\<close> event where the function returns.
\<close>

definition get :: "cache \<Rightarrow> string \<Rightarrow> world \<Rightarrow> ptr \<times> world" where
  "get c name w =
     (let w1 = emit (Mutex_Lock (mutex c)) w;
          r = search_map (mappings c) name
      in (r, emit (Mutex_Unlock (mutex c)) w1))"

text \<open>
  \<open>void add(T* algo, const std::string& index_name = "") const\<close>. A call without a
  name is a call with the default argument, the empty string. The assignment
  \<open>mappings[name] = algo\<close> is recorded as the event \<open>Map_Assign name algo\<close>, after the
  \<open>delete\<close> of the entry found under the name and before the holder releases the lock.
\<close>

definition add :: "ptr \<Rightarrow> string \<Rightarrow> cache \<Rightarrow> world \<Rightarrow> fault + (cache \<times> world)" where
  "add algo index_name c w =
     (if algo = 0 then Inr (c, w)
      else
        let w1 = emit (Mutex_Lock (mutex c)) w
        in case (if index_name \<noteq> [] then Inr index_name else name_of algo w1) of
             Inl f \<Rightarrow> Inl f
           | Inr name \<Rightarrow>
               (case (case map_of (mappings c) name of
                        None \<Rightarrow> Inr w1
                      | Some old \<Rightarrow> delete_algo old w1) of
                  Inl f \<Rightarrow> Inl f
                | Inr w2 \<Rightarrow>
                    Inr (c\<lparr>mappings := map_assign name algo (mappings c)\<rparr>,
                         emit (Mutex_Unlock (mutex c)) (emit (Map_Assign name algo) w2))))"



subsection \<open>Engine\<close>

text \<open>
  A cache slot of the engine is a pointer to a cache that only the engine holds:
  \<open>None\<close> is the null pointer, \<open>Some c\<close> points to the cache \<open>c\<close>.
\<close>

record engine =
  cache_of_bc :: "cache option"
  cache_of_sc :: "cache option"
  cache_of_hf :: "cache option"
  cache_of_mac :: "cache option"

text \<open>
  Modelled from the spec: \<open>SCAN_Name\<close> is declared outside engine.cpp. The engine
  only asks a request for its canonical string (spec, section 6:
  \<open>request.canonical_string()\<close>, "deterministic, stable across calls").
\<close>

datatype scan_name = SCAN_Name (as_string: string)

text \<open>
  \<open>find_block_cipher\<close>, \<open>find_stream_cipher\<close>, \<open>find_hash\<close> and
  \<open>find_mac\<close> are defined outside engine.cpp. Each acquisition method takes its
  search as a parameter: a function of the request, the factory and the world that returns
  a pointer (null for "not found") and the world after the search.

  Modelled from the spec: one such search, \<open>find_algo\<close>. The spec (sections 3 and
  6) says that the search "may legitimately return not found" and that a prototype
  instance is "created either by the external search routine or by direct
  registration". The providers are a parameter \<open>prov\<close>: for a request and a factory
  they say whether an instance is built and what its \<open>name()\<close> will be. The search
  records the call in the trace and, for an instance, allocates a new object.
\<close>

definition find_algo ::
  "kind \<Rightarrow> (scan_name \<Rightarrow> 'af \<Rightarrow> string option) \<Rightarrow> scan_name \<Rightarrow> 'af \<Rightarrow> world \<Rightarrow> ptr \<times> world" where
  "find_algo k prov request af w =
     (let w1 = emit (Search k (as_string request)) w
      in case prov request af of
           None \<Rightarrow> (0, w1)
         | Some nm \<Rightarrow> new_algo nm w1)"

text \<open>
  The four acquisition methods, each with its search as first argument. Each returns the
  pointer, the engine (the cache behind the slot may have changed) and the world.
\<close>

definition prototype_block_cipher ::
  "(scan_name \<Rightarrow> 'af \<Rightarrow> world \<Rightarrow> ptr \<times> world) \<Rightarrow> scan_name \<Rightarrow> 'af \<Rightarrow> engine \<Rightarrow> world
     \<Rightarrow> fault + (ptr \<times> engine \<times> world)" where
  "prototype_block_cipher find_block_cipher request af e w =
     (case cache_of_bc e of
        None \<Rightarrow> Inl Null_Cache
      | Some c \<Rightarrow>
          (case get c (as_string request) w of
             (algo, w1) \<Rightarrow>
               if algo \<noteq> 0 then Inr (algo, e, w1)
               else
                 (case find_block_cipher request af w1 of
                    (algo', w2) \<Rightarrow>
                      if algo' \<noteq> 0 then
                        (case add algo' (as_string request) c w2 of
                           Inl f \<Rightarrow> Inl f
                         | Inr (c', w3) \<Rightarrow> Inr (algo', e\<lparr>cache_of_bc := Some c'\<rparr>, w3))
                      else Inr (algo', e, w2))))"

definition prototype_stream_cipher ::
  "(scan_name \<Rightarrow> 'af \<Rightarrow> world \<Rightarrow> ptr \<times> world) \<Rightarrow> scan_name \<Rightarrow> 'af \<Rightarrow> engine \<Rightarrow> world
     \<Rightarrow> fault + (ptr \<times> engine \<times> world)" where
  "prototype_stream_cipher find_stream_cipher request af e w =
     (case cache_of_sc e of
        None \<Rightarrow> Inl Null_Cache
      | Some c \<Rightarrow>
          (case get c (as_string request) w of
             (algo, w1) \<Rightarrow>
               if algo \<noteq> 0 then Inr (algo, e, w1)
               else
                 (case find_stream_cipher request af w1 of
                    (algo', w2) \<Rightarrow>
                      if algo' \<noteq> 0 then
                        (case add algo' (as_string request) c w2 of
                           Inl f \<Rightarrow> Inl f
                         | Inr (c', w3) \<Rightarrow> Inr (algo', e\<lparr>cache_of_sc := Some c'\<rparr>, w3))
                      else Inr (algo', e, w2))))"

definition prototype_hash_function ::
  "(scan_name \<Rightarrow> 'af \<Rightarrow> world \<Rightarrow> ptr \<times> world) \<Rightarrow> scan_name \<Rightarrow> 'af \<Rightarrow> engine \<Rightarrow> world
     \<Rightarrow> fault + (ptr \<times> engine \<times> world)" where
  "prototype_hash_function find_hash request af e w =
     (case cache_of_hf e of
        None \<Rightarrow> Inl Null_Cache
      | Some c \<Rightarrow>
          (case get c (as_string request) w of
             (algo, w1) \<Rightarrow>
               if algo \<noteq> 0 then Inr (algo, e, w1)
               else
                 (case find_hash request af w1 of
                    (algo', w2) \<Rightarrow>
                      if algo' \<noteq> 0 then
                        (case add algo' (as_string request) c w2 of
                           Inl f \<Rightarrow> Inl f
                         | Inr (c', w3) \<Rightarrow> Inr (algo', e\<lparr>cache_of_hf := Some c'\<rparr>, w3))
                      else Inr (algo', e, w2))))"

definition prototype_mac ::
  "(scan_name \<Rightarrow> 'af \<Rightarrow> world \<Rightarrow> ptr \<times> world) \<Rightarrow> scan_name \<Rightarrow> 'af \<Rightarrow> engine \<Rightarrow> world
     \<Rightarrow> fault + (ptr \<times> engine \<times> world)" where
  "prototype_mac find_mac request af e w =
     (case cache_of_mac e of
        None \<Rightarrow> Inl Null_Cache
      | Some c \<Rightarrow>
          (case get c (as_string request) w of
             (algo, w1) \<Rightarrow>
               if algo \<noteq> 0 then Inr (algo, e, w1)
               else
                 (case find_mac request af w1 of
                    (algo', w2) \<Rightarrow>
                      if algo' \<noteq> 0 then
                        (case add algo' (as_string request) c w2 of
                           Inl f \<Rightarrow> Inl f
                         | Inr (c', w3) \<Rightarrow> Inr (algo', e\<lparr>cache_of_mac := Some c'\<rparr>, w3))
                      else Inr (algo', e, w2))))"

text \<open>
  The four overloads of \<open>Engine::add_algorithm\<close>, named after the type of their
  argument. Each calls \<open>add\<close> with the default name.
\<close>

definition add_algorithm_bc :: "ptr \<Rightarrow> engine \<Rightarrow> world \<Rightarrow> fault + (engine \<times> world)" where
  "add_algorithm_bc algo e w =
     (case cache_of_bc e of
        None \<Rightarrow> Inl Null_Cache
      | Some c \<Rightarrow>
          (case add algo [] c w of
             Inl f \<Rightarrow> Inl f
           | Inr (c', w') \<Rightarrow> Inr (e\<lparr>cache_of_bc := Some c'\<rparr>, w')))"

definition add_algorithm_sc :: "ptr \<Rightarrow> engine \<Rightarrow> world \<Rightarrow> fault + (engine \<times> world)" where
  "add_algorithm_sc algo e w =
     (case cache_of_sc e of
        None \<Rightarrow> Inl Null_Cache
      | Some c \<Rightarrow>
          (case add algo [] c w of
             Inl f \<Rightarrow> Inl f
           | Inr (c', w') \<Rightarrow> Inr (e\<lparr>cache_of_sc := Some c'\<rparr>, w')))"

definition add_algorithm_hf :: "ptr \<Rightarrow> engine \<Rightarrow> world \<Rightarrow> fault + (engine \<times> world)" where
  "add_algorithm_hf algo e w =
     (case cache_of_hf e of
        None \<Rightarrow> Inl Null_Cache
      | Some c \<Rightarrow>
          (case add algo [] c w of
             Inl f \<Rightarrow> Inl f
           | Inr (c', w') \<Rightarrow> Inr (e\<lparr>cache_of_hf := Some c'\<rparr>, w')))"

definition add_algorithm_mac :: "ptr \<Rightarrow> engine \<Rightarrow> world \<Rightarrow> fault + (engine \<times> world)" where
  "add_algorithm_mac algo e w =
     (case cache_of_mac e of
        None \<Rightarrow> Inl Null_Cache
      | Some c \<Rightarrow>
          (case add algo [] c w of
             Inl f \<Rightarrow> Inl f
           | Inr (c', w') \<Rightarrow> Inr (e\<lparr>cache_of_mac := Some c'\<rparr>, w')))"

text \<open>
  \<open>Engine::initialize(Mutex_Factory& mf)\<close>: four caches, each built around the
  result of its own \<open>mf.make()\<close>. The factory is the function \<open>mf\<close> from the
  world to the new mutex and the world after the call. The slots are overwritten,
  whatever they held.
\<close>

definition initialize :: "(world \<Rightarrow> ptr \<times> world) \<Rightarrow> engine \<Rightarrow> world \<Rightarrow> engine \<times> world" where
  "initialize mf e w =
     (case mf w of (m1, w1) \<Rightarrow>
      case mf w1 of (m2, w2) \<Rightarrow>
      case mf w2 of (m3, w3) \<Rightarrow>
      case mf w3 of (m4, w4) \<Rightarrow>
        (e\<lparr>cache_of_bc := Some (Algorithm_Cache_Impl m1),
           cache_of_sc := Some (Algorithm_Cache_Impl m2),
           cache_of_hf := Some (Algorithm_Cache_Impl m3),
           cache_of_mac := Some (Algorithm_Cache_Impl m4)\<rparr>, w4))"

text \<open>\<open>Engine::Engine()\<close>.\<close>

definition Engine :: engine where
  "Engine = \<lparr>cache_of_bc = None, cache_of_sc = None, cache_of_hf = None, cache_of_mac = None\<rparr>"



subsection \<open>The four kinds, uniformly\<close>

text \<open>
  The engine has one slot, one acquisition method and one registration method per kind.
  The following selectors only name them by kind, so that a property can be stated once
  for every kind; \<open>search k\<close> is the search of the kind \<open>k\<close>.
\<close>

definition cache_slot :: "kind \<Rightarrow> engine \<Rightarrow> cache option" where
  "cache_slot k e =
     (case k of
        Block_Cipher \<Rightarrow> cache_of_bc e
      | Stream_Cipher \<Rightarrow> cache_of_sc e
      | Hash_Function \<Rightarrow> cache_of_hf e
      | Message_Auth_Code \<Rightarrow> cache_of_mac e)"

definition set_slot :: "kind \<Rightarrow> cache \<Rightarrow> engine \<Rightarrow> engine" where
  "set_slot k c e =
     (case k of
        Block_Cipher \<Rightarrow> e\<lparr>cache_of_bc := Some c\<rparr>
      | Stream_Cipher \<Rightarrow> e\<lparr>cache_of_sc := Some c\<rparr>
      | Hash_Function \<Rightarrow> e\<lparr>cache_of_hf := Some c\<rparr>
      | Message_Auth_Code \<Rightarrow> e\<lparr>cache_of_mac := Some c\<rparr>)"

definition acquire ::
  "kind \<Rightarrow> (kind \<Rightarrow> scan_name \<Rightarrow> 'af \<Rightarrow> world \<Rightarrow> ptr \<times> world) \<Rightarrow> scan_name \<Rightarrow> 'af \<Rightarrow> engine
     \<Rightarrow> world \<Rightarrow> fault + (ptr \<times> engine \<times> world)" where
  "acquire k search =
     (case k of
        Block_Cipher \<Rightarrow> prototype_block_cipher (search Block_Cipher)
      | Stream_Cipher \<Rightarrow> prototype_stream_cipher (search Stream_Cipher)
      | Hash_Function \<Rightarrow> prototype_hash_function (search Hash_Function)
      | Message_Auth_Code \<Rightarrow> prototype_mac (search Message_Auth_Code))"

definition add_algorithm :: "kind \<Rightarrow> ptr \<Rightarrow> engine \<Rightarrow> world \<Rightarrow> fault + (engine \<times> world)" where
  "add_algorithm k =
     (case k of
        Block_Cipher \<Rightarrow> add_algorithm_bc
      | Stream_Cipher \<Rightarrow> add_algorithm_sc
      | Hash_Function \<Rightarrow> add_algorithm_hf
      | Message_Auth_Code \<Rightarrow> add_algorithm_mac)"

subsection \<open>An engine's life\<close>






subsection \<open>A caller's insertions into one cache\<close>

text \<open>
  Calls of \<open>add\<close> made one after the other on the same cache; each call is the pair
  of its two arguments. A fault ends the sequence.
\<close>

fun adds :: "(ptr \<times> string) list \<Rightarrow> cache \<Rightarrow> world \<Rightarrow> fault + (cache \<times> world)" where
  "adds [] c w = Inr (c, w)"
| "adds ((algo, index_name) # rest) c w =
     (case add algo index_name c w of
        Inl f \<Rightarrow> Inl f
      | Inr (c', w') \<Rightarrow> adds rest c' w')"

text \<open>
  The name under which the call \<open>add algo index_name\<close> stores, as \<open>add\<close> computes it:
  \<open>index_name\<close> when it is not the empty string, what \<open>algo->name()\<close> returns otherwise
  (\<open>None\<close> when \<open>algo\<close> points to no live object).
\<close>

definition key_of :: "world \<Rightarrow> ptr \<times> string \<Rightarrow> string option" where
  "key_of w a = (if snd a \<noteq> [] then Some (snd a) else algos w (fst a))"

subsection \<open>Ownership\<close>

text \<open>The pointers a cache maps, and those of a slot and of a whole engine.\<close>

definition owned :: "cache \<Rightarrow> ptr set" where
  "owned c = set (map snd (mappings c))"

definition slot_owned :: "kind \<Rightarrow> engine \<Rightarrow> ptr set" where
  "slot_owned k e = (case cache_slot k e of None \<Rightarrow> {} | Some c \<Rightarrow> owned c)"


definition slot_mutex :: "kind \<Rightarrow> engine \<Rightarrow> ptr set" where
  "slot_mutex k e = (case cache_slot k e of None \<Rightarrow> {} | Some c \<Rightarrow> {mutex c})"

text \<open>The algorithm objects destroyed so far, in the order of their destruction.\<close>

definition deleted_by :: "event \<Rightarrow> ptr list" where
  "deleted_by ev = (case ev of Algo_Delete p \<Rightarrow> [p] | _ \<Rightarrow> [])"

definition deleted :: "world \<Rightarrow> ptr list" where
  "deleted w = concat (map deleted_by (trace w))"

text \<open>The algorithm objects built so far by \<open>new_algo\<close>.\<close>

definition created_by :: "event \<Rightarrow> ptr list" where
  "created_by ev = (case ev of Algo_New p \<Rightarrow> [p] | _ \<Rightarrow> [])"

definition created :: "world \<Rightarrow> ptr list" where
  "created w = concat (map created_by (trace w))"

text \<open>
  A cache is in order when its keys increase strictly (one entry per name), no pointer
  is mapped under two names, and every mapped pointer is non-null and points to a live
  object.
\<close>

definition cache_ok :: "cache \<Rightarrow> world \<Rightarrow> bool" where
  "cache_ok c w =
     (sorted_wrt (<) (map fst (mappings c)) \<and> distinct (map snd (mappings c)) \<and>
      owned c \<subseteq> dom (algos w) \<and> 0 \<notin> owned c)"

text \<open>
  An engine is in order when each cache it has is in order around a live mutex, and no
  two caches share an instance or a mutex. Any of the slots may be null.
\<close>

definition engine_ok :: "engine \<Rightarrow> world \<Rightarrow> bool" where
  "engine_ok e w =
     ((\<forall>k. case cache_slot k e of
             None \<Rightarrow> True
           | Some c \<Rightarrow> cache_ok c w \<and> mutex c \<in> mutexes w \<and> mutex c \<noteq> 0) \<and>
      (\<forall>k k'. k \<noteq> k' \<longrightarrow>
         slot_owned k e \<inter> slot_owned k' e = {} \<and> slot_mutex k e \<inter> slot_mutex k' e = {}))"





subsection \<open>Example states\<close>

text \<open>
  A world in which a caller has built three algorithm objects (the third reports the
  empty string as its name) and an engine has been initialized with the mutexes 4 to 7;
  the block cipher cache of the engine already maps the first object.
\<close>

definition example_world :: world where
  "example_world =
     \<lparr>algos = [1 \<mapsto> ''AES-128'', 2 \<mapsto> ''AES-128'', 3 \<mapsto> ''''],
      mutexes = {4, 5, 6, 7}, next_addr = 7, trace = []\<rparr>"

definition example_cache :: cache where
  "example_cache = \<lparr>mutex = 4, mappings = [(''AES-128'', 1)]\<rparr>"

definition example_engine :: engine where
  "example_engine =
     \<lparr>cache_of_bc = Some example_cache,
      cache_of_sc = Some (Algorithm_Cache_Impl 5),
      cache_of_hf = Some (Algorithm_Cache_Impl 6),
      cache_of_mac = Some (Algorithm_Cache_Impl 7)\<rparr>"

text \<open>
  The block cipher cache after the caller has handed it the first object a second time,
  under another name (\<open>add 1 ''AES-256''\<close>): one instance under two names.
\<close>

definition example_shared_cache :: cache where
  "example_shared_cache = \<lparr>mutex = 4, mappings = [(''AES-128'', 1), (''AES-256'', 1)]\<rparr>"

section \<open>Basic facts\<close>

subsection \<open>The four methods are one algorithm\<close>

lemma acquire_unfold:
  "acquire k search request af e w =
     (case cache_slot k e of
        None \<Rightarrow> Inl Null_Cache
      | Some c \<Rightarrow>
          (case get c (as_string request) w of
             (algo, w1) \<Rightarrow>
               if algo \<noteq> 0 then Inr (algo, e, w1)
               else
                 (case search k request af w1 of
                    (algo', w2) \<Rightarrow>
                      if algo' \<noteq> 0 then
                        (case add algo' (as_string request) c w2 of
                           Inl f \<Rightarrow> Inl f
                         | Inr (c', w3) \<Rightarrow> Inr (algo', set_slot k c' e, w3))
                      else Inr (algo', e, w2))))"
  by (cases k)
     (simp_all add: acquire_def cache_slot_def set_slot_def prototype_block_cipher_def
        prototype_stream_cipher_def prototype_hash_function_def prototype_mac_def
      split: option.split sum.split prod.split)

lemma add_algorithm_unfold:
  "add_algorithm k algo e w =
     (case cache_slot k e of
        None \<Rightarrow> Inl Null_Cache
      | Some c \<Rightarrow>
          (case add algo [] c w of
             Inl f \<Rightarrow> Inl f
           | Inr (c', w') \<Rightarrow> Inr (set_slot k c' e, w')))"
  by (cases k)
     (simp_all add: add_algorithm_def cache_slot_def set_slot_def add_algorithm_bc_def
        add_algorithm_sc_def add_algorithm_hf_def add_algorithm_mac_def
      split: option.split sum.split prod.split)


subsection \<open>Assignment into the map\<close>

lemma map_of_map_assign: "map_of (map_assign k v m) = (map_of m)(k \<mapsto> v)"
  by (induction m) (auto simp: fun_eq_iff)

lemma keys_map_assign: "fst ` set (map_assign k v m) = insert k (fst ` set m)"
  by (induction k v m rule: map_assign.induct) auto

lemma sorted_map_assign:
  "sorted_wrt (<) (map fst m) \<Longrightarrow> sorted_wrt (<) (map fst (map_assign k v m))"
proof (induction m)
  case Nil
  then show ?case by simp
next
  case (Cons a m)
  obtain k' v' where a: "a = (k', v')" by (cases a)
  from Cons.prems have tl: "sorted_wrt (<) (map fst m)" and hd: "\<forall>x \<in> set (map fst m). k' < x"
    by (auto simp: a)
  show ?case
  proof (cases "k = k'")
    case True
    with hd tl show ?thesis by (simp add: a)
  next
    case False
    show ?thesis
    proof (cases "k < k'")
      case True
      with hd tl False show ?thesis by (auto simp: a)
    next
      case ge: False
      with False have "k' < k" by auto
      with hd have "\<forall>x \<in> set (map fst (map_assign k v m)). k' < x"
        by (simp add: keys_map_assign)
      with Cons.IH [OF tl] False ge show ?thesis
        by (simp add: a)
    qed
  qed
qed

lemma values_map_assign:
  "sorted_wrt (<) (map fst m) \<Longrightarrow> distinct (map snd m) \<Longrightarrow> v \<notin> set (map snd m) \<Longrightarrow>
     distinct (map snd (map_assign k v m)) \<and>
     set (map snd (map_assign k v m)) =
       insert v (set (map snd m) - (case map_of m k of None \<Rightarrow> {} | Some old \<Rightarrow> {old}))"
proof (induction m)
  case Nil
  then show ?case by simp
next
  case (Cons a m)
  obtain k' v' where a: "a = (k', v')" by (cases a)
  from Cons.prems have tl: "sorted_wrt (<) (map fst m)" "distinct (map snd m)" "v \<notin> set (map snd m)"
    and hd: "\<forall>x \<in> set (map fst m). k' < x" "v' \<notin> set (map snd m)" "v \<noteq> v'"
    by (auto simp: a)
  show ?case
  proof (cases "k = k'")
    case True
    with hd tl show ?thesis by (auto simp: a)
  next
    case False
    show ?thesis
    proof (cases "k < k'")
      case True
      have "map_of m k = None"
        using hd(1) True by (auto simp: map_of_eq_None_iff)
      with hd tl False True show ?thesis by (auto simp: a)
    next
      case ge: False
      have old: "\<And>old. map_of m k = Some old \<Longrightarrow> old \<noteq> v'"
        using hd(2) by (auto dest!: map_of_SomeD simp: image_iff)
      from Cons.IH [OF tl] False ge hd old show ?thesis
        by (auto simp: a split: option.splits)
    qed
  qed
qed

lemma map_of_owned: "map_of (mappings c) key = Some old \<Longrightarrow> old \<in> owned c"
  by (auto simp: owned_def dest!: map_of_SomeD intro!: image_eqI [where x = "(key, old)"])

subsection \<open>The trace and the destroyed objects\<close>

lemma deleted_emit [simp]:
  "deleted (emit ev w) = deleted w @ deleted_by ev"
  by (simp add: deleted_def emit_def)

lemma deleted_other_upd [simp]:
  "deleted (w\<lparr>algos := a\<rparr>) = deleted w"
  "deleted (w\<lparr>mutexes := ms\<rparr>) = deleted w"
  "deleted (w\<lparr>next_addr := n\<rparr>) = deleted w"
  by (simp_all add: deleted_def)

lemma created_other_upd [simp]:
  "created (w\<lparr>algos := a\<rparr>) = created w"
  "created (w\<lparr>mutexes := ms\<rparr>) = created w"
  "created (w\<lparr>next_addr := n\<rparr>) = created w"
  by (simp_all add: created_def)

lemma cache_ok_trace [simp]:
  "cache_ok c (w\<lparr>trace := t\<rparr>) = cache_ok c w"
  by (simp add: cache_ok_def)

lemma cache_ok_distinct_keys: "cache_ok c w \<Longrightarrow> distinct (map fst (mappings c))"
  by (simp add: cache_ok_def strict_sorted_iff)

subsection \<open>What get, add and the searches return\<close>

lemma get_result:
  "get c name w =
     (search_map (mappings c) name,
      w\<lparr>trace := trace w @ [Mutex_Lock (mutex c), Mutex_Unlock (mutex c)]\<rparr>)"
  by (simp add: get_def emit_def Let_def)

lemma find_algo_none:
  "prov request af = None \<Longrightarrow>
     find_algo k prov request af w = (0, w\<lparr>trace := trace w @ [Search k (as_string request)]\<rparr>)"
  by (simp add: find_algo_def emit_def)

lemma find_algo_some:
  "prov request af = Some nm \<Longrightarrow>
     find_algo k prov request af w =
       (Suc (next_addr w),
        w\<lparr>algos := (algos w)(Suc (next_addr w) \<mapsto> nm), next_addr := Suc (next_addr w),
          trace := trace w @ [Search k (as_string request), Algo_New (Suc (next_addr w))]\<rparr>)"
  by (simp add: find_algo_def emit_def new_algo_def)

lemma add_insert:
  assumes "algo \<noteq> 0"
    and "idx \<noteq> [] \<and> key = idx \<or> idx = [] \<and> algos w algo = Some key"
    and "map_of (mappings c) key = None"
  shows "add algo idx c w =
           Inr (c\<lparr>mappings := map_assign key algo (mappings c)\<rparr>,
                w\<lparr>trace := trace w @ [Mutex_Lock (mutex c), Map_Assign key algo, Mutex_Unlock (mutex c)]\<rparr>)"
  using assms by (auto simp: add_def name_of_def emit_def)

lemma add_replace:
  assumes "algo \<noteq> 0"
    and "idx \<noteq> [] \<and> key = idx \<or> idx = [] \<and> algos w algo = Some key"
    and "map_of (mappings c) key = Some old" and "old \<noteq> 0" and "algos w old = Some nm"
  shows "add algo idx c w =
           Inr (c\<lparr>mappings := map_assign key algo (mappings c)\<rparr>,
                w\<lparr>algos := (algos w)(old := None),
                  trace := trace w @ [Mutex_Lock (mutex c), Algo_Delete old, Map_Assign key algo,
                                   Mutex_Unlock (mutex c)]\<rparr>)"
  using assms by (auto simp: add_def name_of_def emit_def delete_algo_def)

lemma add_succeeds:
  assumes "algo \<noteq> 0"
    and "idx \<noteq> [] \<and> key = idx \<or> idx = [] \<and> algos w algo = Some key"
    and "owned c \<subseteq> dom (algos w)"
  shows "\<exists>w'. add algo idx c w = Inr (c\<lparr>mappings := map_assign key algo (mappings c)\<rparr>, w')"
proof (cases "map_of (mappings c) key")
  case None
  with assms(1,2) show ?thesis by (simp add: add_insert)
next
  case (Some old)
  then have "old \<in> owned c" by (rule map_of_owned)
  with assms(3) obtain nm where "algos w old = Some nm" by auto
  with Some assms(1,2) show ?thesis
    by (cases "old = 0") (auto simp: add_def name_of_def emit_def delete_algo_def)
qed

lemma cache_ok_add_insert:
  assumes "cache_ok c w" "algo \<noteq> 0" "algos w algo \<noteq> None" "algo \<notin> owned c"
    and "map_of (mappings c) key = None"
  shows "cache_ok (c\<lparr>mappings := map_assign key algo (mappings c)\<rparr>)
           (w\<lparr>trace := trace w @ evs\<rparr>)"
    and "owned (c\<lparr>mappings := map_assign key algo (mappings c)\<rparr>) = insert algo (owned c)"
  using assms values_map_assign [of "mappings c" algo key]
  by (auto simp: cache_ok_def owned_def sorted_map_assign)

lemma cache_ok_add_replace:
  assumes "cache_ok c w" "algo \<noteq> 0" "algos w algo \<noteq> None" "algo \<notin> owned c"
    and "map_of (mappings c) key = Some old"
  shows "cache_ok (c\<lparr>mappings := map_assign key algo (mappings c)\<rparr>)
           (w\<lparr>algos := (algos w)(old := None), trace := trace w @ evs\<rparr>)"
    and "owned (c\<lparr>mappings := map_assign key algo (mappings c)\<rparr>) = insert algo (owned c - {old})"
  using assms values_map_assign [of "mappings c" algo key] map_of_owned [of c key old]
  by (auto simp: cache_ok_def owned_def sorted_map_assign)

text \<open>No entry of a cache is null: the constructor stores none, and neither does \<open>add\<close>.\<close>

lemma values_map_assign_subset:
  "set (map snd (map_assign k v m)) \<subseteq> insert v (set (map snd m))"
  by (induction k v m rule: map_assign.induct) auto

lemma owned_new_cache: "owned (Algorithm_Cache_Impl m) = {}"
  by (simp add: owned_def Algorithm_Cache_Impl_def)

lemma add_keeps_nonnull:
  assumes "add algo idx c w = Inr (c', w')" and "0 \<notin> owned c"
  shows "0 \<notin> owned c'"
proof (cases "algo = 0")
  case True
  with assms show ?thesis by (simp add: add_def)
next
  case False
  with assms(1) obtain name where "mappings c' = map_assign name algo (mappings c)"
    by (auto simp: add_def Let_def split: sum.splits if_splits)
  with values_map_assign_subset [of name algo "mappings c"] assms(2) False show ?thesis
    by (auto simp: owned_def)
qed

text \<open>
  The effect of \<open>add\<close> when the cache is in order and takes over a live object that it
  does not own yet: with or without an entry under the key.
\<close>

lemma add_effect:
  assumes "cache_ok c w" and "algo \<noteq> 0" and "algos w algo = Some nm" and "algo \<notin> owned c"
    and "key = (if idx \<noteq> [] then idx else nm)"
  shows "\<exists>c' w'. add algo idx c w = Inr (c', w') \<and>
           cache_ok c' w' \<and> distinct (map fst (mappings c')) \<and>
           map_of (mappings c') = (map_of (mappings c))(key \<mapsto> algo) \<and>
           mutex c' = mutex c \<and> mutexes w' = mutexes w \<and> next_addr w' = next_addr w \<and>
           (case map_of (mappings c) key of
              None \<Rightarrow>
                trace w' = trace w @ [Mutex_Lock (mutex c), Map_Assign key algo, Mutex_Unlock (mutex c)] \<and>
                algos w' = algos w \<and> owned c' = insert algo (owned c)
            | Some old \<Rightarrow>
                trace w' = trace w @ [Mutex_Lock (mutex c), Algo_Delete old, Map_Assign key algo,
                                   Mutex_Unlock (mutex c)] \<and>
                algos w' = (algos w)(old := None) \<and> algos w old \<noteq> None \<and>
                owned c' = insert algo (owned c - {old}) \<and> old \<in> owned c \<and> old \<notin> owned c')"
proof -
  let ?c' = "c\<lparr>mappings := map_assign key algo (mappings c)\<rparr>"
  have k: "idx \<noteq> [] \<and> key = idx \<or> idx = [] \<and> algos w algo = Some key"
    using assms(3,5) by auto
  have live: "algos w algo \<noteq> None" using assms(3) by simp
  show ?thesis
  proof (cases "map_of (mappings c) key")
    case None
    let ?w' = "w\<lparr>trace := trace w @ [Mutex_Lock (mutex c), Map_Assign key algo, Mutex_Unlock (mutex c)]\<rparr>"
    have "add algo idx c w = Inr (?c', ?w')"
      by (rule add_insert [OF assms(2) k None])
    moreover have ok: "cache_ok ?c' ?w'" and "owned ?c' = insert algo (owned c)"
      by (rule cache_ok_add_insert [OF assms(1,2) live assms(4) None])+
    moreover have "distinct (map fst (mappings ?c'))"
      by (rule cache_ok_distinct_keys [OF ok])
    ultimately show ?thesis
      using None by (simp add: map_of_map_assign)
  next
    case (Some old)
    let ?w' = "w\<lparr>algos := (algos w)(old := None),
                  trace := trace w @ [Mutex_Lock (mutex c), Algo_Delete old, Map_Assign key algo,
                                   Mutex_Unlock (mutex c)]\<rparr>"
    have own: "old \<in> owned c" using Some by (rule map_of_owned)
    from assms(1) have "0 \<notin> owned c" and sub: "owned c \<subseteq> dom (algos w)"
      by (simp_all add: cache_ok_def)
    with own have "old \<noteq> 0" and "old \<in> dom (algos w)"
      by (metis, blast)
    then obtain nm' where nm': "algos w old = Some nm'" by auto
    have "add algo idx c w = Inr (?c', ?w')"
      by (rule add_replace [OF assms(2) k Some \<open>old \<noteq> 0\<close> nm'])
    moreover have ok: "cache_ok ?c' ?w'" and o: "owned ?c' = insert algo (owned c - {old})"
      by (rule cache_ok_add_replace [OF assms(1,2) live assms(4) Some])+
    moreover have "distinct (map fst (mappings ?c'))"
      by (rule cache_ok_distinct_keys [OF ok])
    moreover have "old \<notin> owned ?c'"
      using o own assms(4) by auto
    ultimately show ?thesis
      using Some nm' own by (simp add: map_of_map_assign)
  qed
qed

subsection \<open>Acquisition\<close>

lemma acquire_cached:
  assumes "cache_slot k e = Some c"
    and "map_of (mappings c) (as_string request) = Some algo"
    and "0 \<notin> owned c"
  shows "acquire k search request af e w =
           Inr (algo, e, w\<lparr>trace := trace w @ [Mutex_Lock (mutex c), Mutex_Unlock (mutex c)]\<rparr>)"
proof -
  from assms(2) have "algo \<in> owned c"
    by (rule map_of_owned)
  with assms(3) have "algo \<noteq> 0"
    by metis
  with assms(1,2) show ?thesis
    by (simp add: acquire_unfold get_result search_map_def)
qed

text \<open>On a miss the search runs once, in the world that \<open>get\<close> has left.\<close>

lemma acquire_missed:
  assumes "cache_slot k e = Some c"
    and "map_of (mappings c) (as_string request) = None"
  shows "acquire k search request af e w =
           (case search k request af
                   (w\<lparr>trace := trace w @ [Mutex_Lock (mutex c), Mutex_Unlock (mutex c)]\<rparr>) of
              (algo', w2) \<Rightarrow>
                if algo' \<noteq> 0 then
                  (case add algo' (as_string request) c w2 of
                     Inl f \<Rightarrow> Inl f
                   | Inr (c', w3) \<Rightarrow> Inr (algo', set_slot k c' e, w3))
                else Inr (algo', e, w2))"
  using assms by (simp add: acquire_unfold get_result search_map_def)

lemma acquire_miss_none:
  assumes "cache_slot k e = Some c"
    and "map_of (mappings c) (as_string request) = None"
    and "prov k request af = None"
  shows "acquire k (\<lambda>k. find_algo k (prov k)) request af e w =
           Inr (0, e, w\<lparr>trace := trace w @ [Mutex_Lock (mutex c), Mutex_Unlock (mutex c),
                                              Search k (as_string request)]\<rparr>)"
  using assms by (simp add: acquire_missed find_algo_none)

subsection \<open>Initialization\<close>

lemma mf_make_result:
  "mf_make w =
     (Suc (next_addr w),
      w\<lparr>mutexes := insert (Suc (next_addr w)) (mutexes w), next_addr := Suc (next_addr w),
        trace := trace w @ [Mutex_Make (Suc (next_addr w))]\<rparr>)"
  by (simp add: mf_make_def emit_def Let_def)

lemma initialize_calls:
  "initialize mf e w =
     (\<lparr>cache_of_bc = Some (Algorithm_Cache_Impl (fst (mf w))),
       cache_of_sc = Some (Algorithm_Cache_Impl (fst (mf (snd (mf w))))),
       cache_of_hf = Some (Algorithm_Cache_Impl (fst (mf (snd (mf (snd (mf w))))))),
       cache_of_mac = Some (Algorithm_Cache_Impl (fst (mf (snd (mf (snd (mf (snd (mf w)))))))))\<rparr>,
      snd (mf (snd (mf (snd (mf (snd (mf w))))))))"
  by (simp add: initialize_def case_prod_beta)

lemma initialize_result:
  "initialize mf_make e w =
     (\<lparr>cache_of_bc = Some (Algorithm_Cache_Impl (next_addr w + 1)),
       cache_of_sc = Some (Algorithm_Cache_Impl (next_addr w + 2)),
       cache_of_hf = Some (Algorithm_Cache_Impl (next_addr w + 3)),
       cache_of_mac = Some (Algorithm_Cache_Impl (next_addr w + 4))\<rparr>,
      w\<lparr>mutexes := mutexes w \<union>
           {next_addr w + 1, next_addr w + 2, next_addr w + 3, next_addr w + 4},
        next_addr := next_addr w + 4,
        trace := trace w @ [Mutex_Make (next_addr w + 1), Mutex_Make (next_addr w + 2),
                            Mutex_Make (next_addr w + 3), Mutex_Make (next_addr w + 4)]\<rparr>)"
  by (simp add: initialize_def mf_make_result numeral_eq_Suc insert_commute)

section \<open>Ownership along an engine's life\<close>

subsection \<open>Slots by kind\<close>












lemma engine_ok_trace [simp]: "engine_ok e (w\<lparr>trace := t\<rparr>) = engine_ok e w"
  by (simp add: engine_ok_def cong: option.case_cong)






subsection \<open>The engine takes over an instance\<close>



subsection \<open>Calls and runs\<close>











subsection \<open>Destructors\<close>

lemma restrict_upd_None:
  "(m(v := None)) |` (- S) = m |` (- insert v S)"
  by (auto simp: restrict_map_def fun_eq_iff)







subsection \<open>From construction to destruction\<close>



section \<open>Sequences of insertions, and destructors that fault\<close>

subsection \<open>One entry per name\<close>

lemma add_sorted:
  assumes "add algo idx c w = Inr (c', w')" and "sorted_wrt (<) (map fst (mappings c))"
  shows "sorted_wrt (<) (map fst (mappings c'))"
proof (cases "algo = 0")
  case True
  with assms show ?thesis by (simp add: add_def)
next
  case False
  with assms(1) obtain name where "mappings c' = map_assign name algo (mappings c)"
    by (auto simp: add_def Let_def split: sum.splits if_splits)
  with assms(2) show ?thesis by (simp add: sorted_map_assign)
qed

lemma adds_Cons:
  assumes "adds (a # calls) c w = Inr (c', w')"
  obtains c1 w1 where "add (fst a) (snd a) c w = Inr (c1, w1)" and "adds calls c1 w1 = Inr (c', w')"
  using assms by (cases a) (auto split: sum.splits)

lemma adds_sorted:
  assumes "adds calls c w = Inr (c', w')" and "sorted_wrt (<) (map fst (mappings c))"
  shows "sorted_wrt (<) (map fst (mappings c'))"
  using assms
proof (induction calls arbitrary: c w)
  case Nil
  then show ?case by simp
next
  case (Cons a calls)
  from Cons.prems(1) obtain c1 w1 where 1: "add (fst a) (snd a) c w = Inr (c1, w1)"
    and 2: "adds calls c1 w1 = Inr (c', w')"
    by (rule adds_Cons)
  from add_sorted [OF 1 Cons.prems(2)] have "sorted_wrt (<) (map fst (mappings c1))" .
  with 2 show ?case by (rule Cons.IH)
qed

subsection \<open>A view across insertions\<close>

lemma cache_ok_inj:
  assumes "cache_ok c w" and "map_of (mappings c) k1 = Some v" and "map_of (mappings c) k2 = Some v"
  shows "k1 = k2"
proof -
  from assms(2,3) have "(k1, v) \<in> set (mappings c)" "(k2, v) \<in> set (mappings c)"
    by (auto dest: map_of_SomeD)
  moreover from assms(1) have "distinct (map snd (mappings c))"
    by (simp add: cache_ok_def)
  ultimately show ?thesis
    by (metis distinct_map inj_onD snd_conv fst_conv)
qed

lemma add_effect_view:
  assumes "cache_ok c w" and "algo \<noteq> 0" and "algos w algo = Some nm" and "algo \<notin> owned c"
    and "key = (if idx \<noteq> [] then idx else nm)"
  shows "\<exists>c' w'. add algo idx c w = Inr (c', w') \<and> cache_ok c' w' \<and>
           map_of (mappings c') = (map_of (mappings c))(key \<mapsto> algo) \<and>
           owned c' \<subseteq> insert algo (owned c) \<and>
           (\<forall>p. p \<notin> owned c \<longrightarrow> algos w' p = algos w p) \<and>
           (\<forall>p. algos w p = None \<longrightarrow> algos w' p = None) \<and>
           (\<forall>name view. map_of (mappings c) name = Some view \<longrightarrow>
              (if name = key then algos w' view = None else algos w' view = algos w view))"
proof -
  from add_effect [OF assms]
  obtain c' w' where add: "add algo idx c w = Inr (c', w')" and ok: "cache_ok c' w'"
    and m: "map_of (mappings c') = (map_of (mappings c))(key \<mapsto> algo)"
    and eff: "case map_of (mappings c) key of
                None \<Rightarrow> algos w' = algos w \<and> owned c' = insert algo (owned c)
              | Some old \<Rightarrow> algos w' = (algos w)(old := None) \<and>
                  owned c' = insert algo (owned c - {old}) \<and> old \<in> owned c"
    by (auto split: option.splits)
  have "owned c' \<subseteq> insert algo (owned c) \<and>
        (\<forall>p. p \<notin> owned c \<longrightarrow> algos w' p = algos w p) \<and>
        (\<forall>p. algos w p = None \<longrightarrow> algos w' p = None) \<and>
        (\<forall>name view. map_of (mappings c) name = Some view \<longrightarrow>
           (if name = key then algos w' view = None else algos w' view = algos w view))"
  proof (cases "map_of (mappings c) key")
    case None
    with eff show ?thesis by auto
  next
    case (Some old)
    with eff have a: "algos w' = (algos w)(old := None)"
      and o: "owned c' = insert algo (owned c - {old})" and own: "old \<in> owned c"
      by simp_all
    have "if name = key then algos w' view = None else algos w' view = algos w view"
      if v: "map_of (mappings c) name = Some view" for name view
    proof (cases "name = key")
      case True
      with v Some a show ?thesis by simp
    next
      case False
      have "view \<noteq> old"
      proof
        assume "view = old"
        with v Some have "name = key"
          using cache_ok_inj [OF assms(1), of name old key] by simp
        with False show False by simp
      qed
      with a False show ?thesis by simp
    qed
    moreover have "owned c' \<subseteq> insert algo (owned c)"
      using o by auto
    moreover have "\<forall>p. p \<notin> owned c \<longrightarrow> algos w' p = algos w p"
      using a own by auto
    moreover have "\<forall>p. algos w p = None \<longrightarrow> algos w' p = None"
      using a by simp
    ultimately show ?thesis by blast
  qed
  with add ok m show ?thesis by blast
qed

lemma key_of_live:
  "algos w algo = Some nm \<Longrightarrow> key_of w (algo, idx) = Some (if idx \<noteq> [] then idx else nm)"
  by (simp add: key_of_def)

lemma key_of_trace [simp]: "key_of (w\<lparr>trace := t\<rparr>) = key_of w"
  by (simp add: key_of_def fun_eq_iff)

lemma adds_effect:
  assumes "cache_ok c w" and "distinct (map fst calls)"
    and "\<forall>a \<in> set calls. fst a \<noteq> 0 \<and> algos w (fst a) \<noteq> None \<and> fst a \<notin> owned c"
  shows "\<exists>c' w'. adds calls c w = Inr (c', w') \<and> cache_ok c' w' \<and>
           dom (map_of (mappings c')) =
             dom (map_of (mappings c)) \<union> {k. Some k \<in> key_of w ` set calls} \<and>
           (\<forall>p. algos w p = None \<longrightarrow> algos w' p = None) \<and>
           (\<forall>name view. map_of (mappings c) name = Some view \<longrightarrow>
              (if Some name \<in> key_of w ` set calls
               then algos w' view = None
               else algos w' view = algos w view \<and> map_of (mappings c') name = Some view))"
  using assms
proof (induction calls arbitrary: c w)
  case Nil
  then show ?case by simp
next
  case (Cons a calls)
  obtain algo idx where a: "a = (algo, idx)" by (cases a)
  from Cons.prems(3) have nz: "algo \<noteq> 0" and notown: "algo \<notin> owned c"
    and "algos w algo \<noteq> None"
    by (simp_all add: a)
  then obtain nm where nm: "algos w algo = Some nm" by auto
  define key where "key = (if idx \<noteq> [] then idx else nm)"
  have ka: "key_of w a = Some key"
    unfolding a key_def using nm by (rule key_of_live)
  from add_effect_view [OF Cons.prems(1) nz nm notown key_def]
  obtain c1 w1 where add: "add algo idx c w = Inr (c1, w1)" and ok1: "cache_ok c1 w1"
    and m1: "map_of (mappings c1) = (map_of (mappings c))(key \<mapsto> algo)"
    and own1: "owned c1 \<subseteq> insert algo (owned c)"
    and out1: "\<And>p. p \<notin> owned c \<Longrightarrow> algos w1 p = algos w p"
    and mono1: "\<And>p. algos w p = None \<Longrightarrow> algos w1 p = None"
    and view1: "\<And>name view. map_of (mappings c) name = Some view \<Longrightarrow>
                  (if name = key then algos w1 view = None else algos w1 view = algos w view)"
    by blast
  from Cons.prems(2) have d: "distinct (map fst calls)" and fresh: "algo \<notin> fst ` set calls"
    by (simp_all add: a)
  have rest: "\<forall>b \<in> set calls. fst b \<noteq> 0 \<and> algos w1 (fst b) \<noteq> None \<and> fst b \<notin> owned c1"
  proof
    fix b assume b: "b \<in> set calls"
    with Cons.prems(3) have 1: "fst b \<noteq> 0" "algos w (fst b) \<noteq> None" "fst b \<notin> owned c"
      by simp_all
    from b fresh have "fst b \<noteq> algo" by auto
    with own1 1(3) have "fst b \<notin> owned c1" by auto
    with 1 out1 [OF 1(3)] show "fst b \<noteq> 0 \<and> algos w1 (fst b) \<noteq> None \<and> fst b \<notin> owned c1"
      by simp
  qed
  have "key_of w1 b = key_of w b" if "b \<in> set calls" for b
  proof -
    from that Cons.prems(3) have "fst b \<notin> owned c" by simp
    from out1 [OF this] show ?thesis by (simp add: key_of_def)
  qed
  then have keys: "key_of w1 ` set calls = key_of w ` set calls"
    by (rule image_cong [OF refl])
  from Cons.IH [OF ok1 d rest]
  obtain c' w' where adds: "adds calls c1 w1 = Inr (c', w')" and ok': "cache_ok c' w'"
    and dom': "dom (map_of (mappings c')) =
                 dom (map_of (mappings c1)) \<union> {k. Some k \<in> key_of w ` set calls}"
    and mono': "\<And>p. algos w1 p = None \<Longrightarrow> algos w' p = None"
    and view': "\<And>name view. map_of (mappings c1) name = Some view \<Longrightarrow>
                  (if Some name \<in> key_of w ` set calls
                   then algos w' view = None
                   else algos w' view = algos w1 view \<and> map_of (mappings c') name = Some view)"
    unfolding keys by blast
  have 1: "adds (a # calls) c w = Inr (c', w')"
    by (simp add: a add adds)
  have 2: "dom (map_of (mappings c')) =
             dom (map_of (mappings c)) \<union> {k. Some k \<in> key_of w ` set (a # calls)}"
    unfolding dom' m1 using ka by auto
  have 3: "\<forall>p. algos w p = None \<longrightarrow> algos w' p = None"
    using mono1 mono' by blast
  have 4: "if Some name \<in> key_of w ` set (a # calls)
           then algos w' view = None
           else algos w' view = algos w view \<and> map_of (mappings c') name = Some view"
    if v: "map_of (mappings c) name = Some view" for name view
  proof (cases "name = key")
    case True
    with view1 [OF v] have "algos w1 view = None" by simp
    then have "algos w' view = None" by (rule mono')
    with True ka show ?thesis by simp
  next
    case False
    with view1 [OF v] have same: "algos w1 view = algos w view" by simp
    from False v have "map_of (mappings c1) name = Some view"
      by (simp add: m1)
    from view' [OF this] same False ka show ?thesis
      by auto
  qed
  from 1 ok' 2 3 4 show ?case by blast
qed

subsection \<open>A destructor that meets a dead object\<close>



section \<open>Properties\<close>

subsection \<open>Acquisition: the fast path\<close>

text \<open>
  C1. For every kind \<open>k\<close>: when the cache behind the slot of \<open>k\<close> holds an entry for
  the request's canonical string, the acquisition method of \<open>k\<close> returns the mapped
  pointer and leaves the engine as it is. Whatever search function is passed in, it is
  not applied: the result does not depend on it, and the world is the one before the call
  with the lock and the unlock of \<open>get\<close> added to the trace. (Entries are never null:
  \<open>add\<close> stores no null pointer, see \<open>add_keeps_nonnull\<close>.)
\<close>

theorem acquire_hit:
  assumes "cache_slot k e = Some c"
    and "map_of (mappings c) (as_string request) = Some algo"
    and "0 \<notin> owned c"
  shows "acquire k search request af e w =
           Inr (algo, e, w\<lparr>trace := trace w @ [Mutex_Lock (mutex c), Mutex_Unlock (mutex c)]\<rparr>)"
  using assms by (rule acquire_cached)

theorem acquire_hit_witness:
  "cache_slot Block_Cipher example_engine = Some example_cache \<and>
   map_of (mappings example_cache) (as_string (SCAN_Name ''AES-128'')) = Some 1 \<and>
   0 \<notin> owned example_cache \<and>
   acquire Block_Cipher (\<lambda>k. find_algo k (\<lambda>r af. Some ''AES-128'')) (SCAN_Name ''AES-128'') ()
       example_engine example_world =
     Inr (1, example_engine,
          example_world\<lparr>trace := [Mutex_Lock 4, Mutex_Unlock 4]\<rparr>)"
proof -
  have h1: "cache_slot Block_Cipher example_engine = Some example_cache"
    by (simp add: cache_slot_def example_engine_def)
  have h2: "map_of (mappings example_cache) (as_string (SCAN_Name ''AES-128'')) = Some 1"
    by (simp add: example_cache_def)
  have h3: "0 \<notin> owned example_cache"
    by (simp add: owned_def example_cache_def)
  have "acquire Block_Cipher (\<lambda>k. find_algo k (\<lambda>r af. Some ''AES-128'')) (SCAN_Name ''AES-128'') ()
       example_engine example_world =
     Inr (1, example_engine,
          example_world\<lparr>trace := trace example_world @
            [Mutex_Lock (mutex example_cache), Mutex_Unlock (mutex example_cache)]\<rparr>)"
    by (rule acquire_hit [OF h1 h2 h3])
  then show ?thesis using h1 h2 h3
    by (simp add: example_world_def example_cache_def)
qed

subsection \<open>Acquisition: the miss\<close>

text \<open>
  C2 (amended). For every kind \<open>k\<close>: when the cache behind the slot of \<open>k\<close> has no
  entry for the request's canonical string, the search \<open>search k\<close> is applied once, to
  the world that \<open>get\<close> has left (the lock is released).
  \<^item> If it returns the null pointer, the method returns the null pointer and the engine
    is unchanged; so the same call made again searches again (with the search
    \<open>find_algo\<close>, two calls leave two \<open>Search\<close> events).
  \<^item> If it returns an instance and the canonical string is not empty, the instance is
    mapped under the canonical string and returned.
  \<^item> If it returns an instance (alive, as every instance the cache maps) and the
    canonical string is empty, the instance is mapped under its own name and returned.
\<close>

theorem acquire_miss:
  assumes "cache_slot k e = Some c"
    and "map_of (mappings c) (as_string request) = None"
  shows "(\<forall>w2. search k request af
                  (w\<lparr>trace := trace w @ [Mutex_Lock (mutex c), Mutex_Unlock (mutex c)]\<rparr>) = (0, w2) \<longrightarrow>
            acquire k search request af e w = Inr (0, e, w2)) \<and>
         (prov k request af = None \<longrightarrow>
            acquire k (\<lambda>k. find_algo k (prov k)) request af e w =
              Inr (0, e, w\<lparr>trace := trace w @ [Mutex_Lock (mutex c), Mutex_Unlock (mutex c),
                                                 Search k (as_string request)]\<rparr>) \<and>
            acquire k (\<lambda>k. find_algo k (prov k)) request af e
                (w\<lparr>trace := trace w @ [Mutex_Lock (mutex c), Mutex_Unlock (mutex c),
                                        Search k (as_string request)]\<rparr>) =
              Inr (0, e, w\<lparr>trace := trace w @ [Mutex_Lock (mutex c), Mutex_Unlock (mutex c),
                                                 Search k (as_string request),
                                                 Mutex_Lock (mutex c), Mutex_Unlock (mutex c),
                                                 Search k (as_string request)]\<rparr>)) \<and>
         (\<forall>algo w2. search k request af
                  (w\<lparr>trace := trace w @ [Mutex_Lock (mutex c), Mutex_Unlock (mutex c)]\<rparr>) = (algo, w2) \<and>
               algo \<noteq> 0 \<and> as_string request \<noteq> [] \<longrightarrow>
            acquire k search request af e w =
              Inr (algo,
                   set_slot k (c\<lparr>mappings := map_assign (as_string request) algo (mappings c)\<rparr>) e,
                   w2\<lparr>trace := trace w2 @ [Mutex_Lock (mutex c), Map_Assign (as_string request) algo,
                                         Mutex_Unlock (mutex c)]\<rparr>)) \<and>
         (\<forall>algo w2 nm. search k request af
                  (w\<lparr>trace := trace w @ [Mutex_Lock (mutex c), Mutex_Unlock (mutex c)]\<rparr>) = (algo, w2) \<and>
               algo \<noteq> 0 \<and> as_string request = [] \<and> algos w2 algo = Some nm \<and>
               owned c \<subseteq> dom (algos w2) \<longrightarrow>
            (\<exists>w'. acquire k search request af e w =
               Inr (algo, set_slot k (c\<lparr>mappings := map_assign nm algo (mappings c)\<rparr>) e, w')))"
proof (intro conjI impI allI)
  fix w2
  assume "search k request af
            (w\<lparr>trace := trace w @ [Mutex_Lock (mutex c), Mutex_Unlock (mutex c)]\<rparr>) = (0, w2)"
  then show "acquire k search request af e w = Inr (0, e, w2)"
    by (simp add: acquire_missed [OF assms])
next
  assume none: "prov k request af = None"
  show "acquire k (\<lambda>k. find_algo k (prov k)) request af e w =
          Inr (0, e, w\<lparr>trace := trace w @ [Mutex_Lock (mutex c), Mutex_Unlock (mutex c),
                                             Search k (as_string request)]\<rparr>)"
    using assms none by (rule acquire_miss_none)
  show "acquire k (\<lambda>k. find_algo k (prov k)) request af e
            (w\<lparr>trace := trace w @ [Mutex_Lock (mutex c), Mutex_Unlock (mutex c),
                                    Search k (as_string request)]\<rparr>) =
          Inr (0, e, w\<lparr>trace := trace w @ [Mutex_Lock (mutex c), Mutex_Unlock (mutex c),
                                             Search k (as_string request),
                                             Mutex_Lock (mutex c), Mutex_Unlock (mutex c),
                                             Search k (as_string request)]\<rparr>)"
    using assms none by (simp add: acquire_miss_none)
next
  fix algo w2
  assume h: "search k request af
               (w\<lparr>trace := trace w @ [Mutex_Lock (mutex c), Mutex_Unlock (mutex c)]\<rparr>) = (algo, w2) \<and>
             algo \<noteq> 0 \<and> as_string request \<noteq> []"
  then have "add algo (as_string request) c w2 =
               Inr (c\<lparr>mappings := map_assign (as_string request) algo (mappings c)\<rparr>,
                    w2\<lparr>trace := trace w2 @ [Mutex_Lock (mutex c), Map_Assign (as_string request) algo,
                                         Mutex_Unlock (mutex c)]\<rparr>)"
    using assms(2) by (intro add_insert) simp_all
  with h show "acquire k search request af e w =
              Inr (algo,
                   set_slot k (c\<lparr>mappings := map_assign (as_string request) algo (mappings c)\<rparr>) e,
                   w2\<lparr>trace := trace w2 @ [Mutex_Lock (mutex c), Map_Assign (as_string request) algo,
                                         Mutex_Unlock (mutex c)]\<rparr>)"
    by (simp add: acquire_missed [OF assms])
next
  fix algo w2 nm
  assume h: "search k request af
               (w\<lparr>trace := trace w @ [Mutex_Lock (mutex c), Mutex_Unlock (mutex c)]\<rparr>) = (algo, w2) \<and>
             algo \<noteq> 0 \<and> as_string request = [] \<and> algos w2 algo = Some nm \<and>
             owned c \<subseteq> dom (algos w2)"
  then have "\<exists>w'. add algo [] c w2 = Inr (c\<lparr>mappings := map_assign nm algo (mappings c)\<rparr>, w')"
    by (intro add_succeeds) simp_all
  then obtain w' where "add algo [] c w2 = Inr (c\<lparr>mappings := map_assign nm algo (mappings c)\<rparr>, w')"
    by blast
  with h show "\<exists>w'. acquire k search request af e w =
               Inr (algo, set_slot k (c\<lparr>mappings := map_assign nm algo (mappings c)\<rparr>) e, w')"
    by (simp add: acquire_missed [OF assms])
qed

theorem acquire_miss_witness:
  "cache_slot Hash_Function example_engine = Some (Algorithm_Cache_Impl 6) \<and>
   map_of (mappings (Algorithm_Cache_Impl 6)) (as_string (SCAN_Name ''SHA-160'')) = None \<and>
   acquire Hash_Function (\<lambda>k. find_algo k (\<lambda>r af. None)) (SCAN_Name ''SHA-160'') ()
       example_engine example_world =
     Inr (0, example_engine,
          example_world\<lparr>trace := [Mutex_Lock 6, Mutex_Unlock 6, Search Hash_Function ''SHA-160'']\<rparr>) \<and>
   acquire Hash_Function (\<lambda>k. find_algo k (\<lambda>r af. Some ''SHA-160'')) (SCAN_Name ''SHA-160'') ()
       example_engine example_world =
     Inr (8, example_engine\<lparr>cache_of_hf := Some \<lparr>mutex = 6, mappings = [(''SHA-160'', 8)]\<rparr>\<rparr>,
          example_world\<lparr>algos := (algos example_world)(8 \<mapsto> ''SHA-160''), next_addr := 8,
            trace := [Mutex_Lock 6, Mutex_Unlock 6, Search Hash_Function ''SHA-160'',
                      Algo_New 8, Mutex_Lock 6, Map_Assign ''SHA-160'' 8,
                      Mutex_Unlock 6]\<rparr>)"
proof -
  have h1: "cache_slot Hash_Function example_engine = Some (Algorithm_Cache_Impl 6)"
    by (simp add: cache_slot_def example_engine_def)
  have h2: "map_of (mappings (Algorithm_Cache_Impl 6)) (as_string (SCAN_Name ''SHA-160'')) = None"
    by (simp add: Algorithm_Cache_Impl_def)
  have w: "trace example_world = []" "next_addr example_world = 7"
    by (simp_all add: example_world_def)
  from acquire_miss [OF h1 h2, of "\<lambda>k. find_algo k (\<lambda>r af. None)" "()" example_world]
  have a: "acquire Hash_Function (\<lambda>k. find_algo k (\<lambda>r af. None)) (SCAN_Name ''SHA-160'') ()
       example_engine example_world =
     Inr (0, example_engine,
          example_world\<lparr>trace := [Mutex_Lock 6, Mutex_Unlock 6, Search Hash_Function ''SHA-160'']\<rparr>)"
    by (simp add: w Algorithm_Cache_Impl_def find_algo_none)
  from acquire_miss [OF h1 h2, of "\<lambda>k. find_algo k (\<lambda>r af. Some ''SHA-160'')" "()" example_world]
  have b: "acquire Hash_Function (\<lambda>k. find_algo k (\<lambda>r af. Some ''SHA-160'')) (SCAN_Name ''SHA-160'') ()
       example_engine example_world =
     Inr (8, example_engine\<lparr>cache_of_hf := Some \<lparr>mutex = 6, mappings = [(''SHA-160'', 8)]\<rparr>\<rparr>,
          example_world\<lparr>algos := (algos example_world)(8 \<mapsto> ''SHA-160''), next_addr := 8,
            trace := [Mutex_Lock 6, Mutex_Unlock 6, Search Hash_Function ''SHA-160'',
                      Algo_New 8, Mutex_Lock 6, Map_Assign ''SHA-160'' 8,
                      Mutex_Unlock 6]\<rparr>)"
    by (simp add: w Algorithm_Cache_Impl_def set_slot_def find_algo_some)
  from h1 h2 a b show ?thesis by blast
qed

text \<open>
  The claim as stated fails for a request whose canonical string is empty: the instance
  that the search built is returned, but it is mapped under its own name, and the cache
  still has no entry for the canonical string.
\<close>

theorem acquire_miss_counterexample:
  "cache_slot Hash_Function example_engine = Some (Algorithm_Cache_Impl 6) \<and>
   map_of (mappings (Algorithm_Cache_Impl 6)) (as_string (SCAN_Name [])) = None \<and>
   acquire Hash_Function (\<lambda>k. find_algo k (\<lambda>r af. Some ''SHA-160'')) (SCAN_Name []) ()
       example_engine example_world =
     Inr (8, example_engine\<lparr>cache_of_hf := Some \<lparr>mutex = 6, mappings = [(''SHA-160'', 8)]\<rparr>\<rparr>,
          example_world\<lparr>algos := (algos example_world)(8 \<mapsto> ''SHA-160''), next_addr := 8,
            trace := [Mutex_Lock 6, Mutex_Unlock 6, Search Hash_Function [],
                      Algo_New 8, Mutex_Lock 6, Map_Assign ''SHA-160'' 8,
                      Mutex_Unlock 6]\<rparr>) \<and>
   map_of [(''SHA-160'', 8 :: ptr)] (as_string (SCAN_Name [])) = None"
  by (simp add: acquire_unfold cache_slot_def example_engine_def Algorithm_Cache_Impl_def
        get_result search_map_def find_algo_some add_def name_of_def emit_def set_slot_def
        example_world_def)

subsection \<open>One entry per name, and the superseded instance\<close>

text \<open>
  C3 (amended).
  \<^item> Every cache holds at most one entry per name. A cache built by the constructor has
    no entries and is in order, and whatever calls of \<open>add\<close> follow, with any
    arguments, the keys of the map increase strictly, so no two entries share a name.
  \<^item> Let a cache be in order (\<open>cache_ok\<close>: the keys increase strictly, no instance is
    mapped under two names, every mapped instance is non-null and alive) and let
    \<open>add\<close> be handed a non-null pointer to a live instance that the cache does not own
    yet. Then \<open>add\<close> returns without a fault and the cache is in order again, so every
    mapped instance is alive; the key maps to the new instance and the other entries are
    as before. When the key had no entry, nothing is destroyed. When the key had an
    entry, the instance mapped before is destroyed exactly once and before the map is
    updated: the events of the call are the lock, the \<open>Algo_Delete\<close> of that instance,
    the \<open>Map_Assign\<close> of the new one and the unlock, in this order. That instance
    was alive, is not alive afterwards (not leaked) and is no longer mapped under any
    name.
\<close>

theorem add_supersedes:
  "mappings (Algorithm_Cache_Impl m) = [] \<and> cache_ok (Algorithm_Cache_Impl m) w \<and>
   (adds calls (Algorithm_Cache_Impl m) w = Inr (c1, w1) \<longrightarrow>
      sorted_wrt (<) (map fst (mappings c1)) \<and> distinct (map fst (mappings c1))) \<and>
   (sorted_wrt (<) (map fst (mappings c)) \<and> add algo idx c w = Inr (c2, w2) \<longrightarrow>
      sorted_wrt (<) (map fst (mappings c2)) \<and> distinct (map fst (mappings c2))) \<and>
   (cache_ok c w \<and> algo \<noteq> 0 \<and> algos w algo = Some nm \<and> algo \<notin> owned c \<and>
    key = (if idx \<noteq> [] then idx else nm) \<longrightarrow>
      (\<exists>c' w'. add algo idx c w = Inr (c', w') \<and> cache_ok c' w' \<and>
         distinct (map fst (mappings c')) \<and>
         map_of (mappings c') = (map_of (mappings c))(key \<mapsto> algo) \<and>
         (case map_of (mappings c) key of
            None \<Rightarrow>
              trace w' = trace w @ [Mutex_Lock (mutex c), Map_Assign key algo,
                                    Mutex_Unlock (mutex c)] \<and>
              algos w' = algos w \<and> owned c' = insert algo (owned c)
          | Some old \<Rightarrow>
              trace w' = trace w @ [Mutex_Lock (mutex c), Algo_Delete old, Map_Assign key algo,
                                    Mutex_Unlock (mutex c)] \<and>
              algos w' = (algos w)(old := None) \<and> algos w old \<noteq> None \<and>
              owned c' = insert algo (owned c - {old}) \<and> old \<notin> owned c')))"
proof (intro conjI impI)
  show "mappings (Algorithm_Cache_Impl m) = []"
    by (simp add: Algorithm_Cache_Impl_def)
  show "cache_ok (Algorithm_Cache_Impl m) w"
    by (simp add: cache_ok_def owned_def Algorithm_Cache_Impl_def)
next
  assume a: "adds calls (Algorithm_Cache_Impl m) w = Inr (c1, w1)"
  have "sorted_wrt (<) (map fst (mappings (Algorithm_Cache_Impl m)))"
    by (simp add: Algorithm_Cache_Impl_def)
  with a show s: "sorted_wrt (<) (map fst (mappings c1))"
    by (rule adds_sorted)
  then show "distinct (map fst (mappings c1))"
    by (simp add: strict_sorted_iff)
next
  assume "sorted_wrt (<) (map fst (mappings c)) \<and> add algo idx c w = Inr (c2, w2)"
  then show s: "sorted_wrt (<) (map fst (mappings c2))"
    using add_sorted [of algo idx c w c2 w2] by simp
  then show "distinct (map fst (mappings c2))"
    by (simp add: strict_sorted_iff)
next
  assume "cache_ok c w \<and> algo \<noteq> 0 \<and> algos w algo = Some nm \<and> algo \<notin> owned c \<and>
          key = (if idx \<noteq> [] then idx else nm)"
  then have h: "cache_ok c w" "algo \<noteq> 0" "algos w algo = Some nm" "algo \<notin> owned c"
    "key = (if idx \<noteq> [] then idx else nm)"
    by simp_all
  from add_effect [OF h]
  obtain c' w' where "add algo idx c w = Inr (c', w')" "cache_ok c' w'"
    "distinct (map fst (mappings c'))" "map_of (mappings c') = (map_of (mappings c))(key \<mapsto> algo)"
    "case map_of (mappings c) key of
       None \<Rightarrow>
         trace w' = trace w @ [Mutex_Lock (mutex c), Map_Assign key algo,
                               Mutex_Unlock (mutex c)] \<and>
         algos w' = algos w \<and> owned c' = insert algo (owned c)
     | Some old \<Rightarrow>
         trace w' = trace w @ [Mutex_Lock (mutex c), Algo_Delete old, Map_Assign key algo,
                               Mutex_Unlock (mutex c)] \<and>
         algos w' = (algos w)(old := None) \<and> algos w old \<noteq> None \<and>
         owned c' = insert algo (owned c - {old}) \<and> old \<notin> owned c'"
    by (auto split: option.splits)
  then show "\<exists>c' w'. add algo idx c w = Inr (c', w') \<and> cache_ok c' w' \<and>
         distinct (map fst (mappings c')) \<and>
         map_of (mappings c') = (map_of (mappings c))(key \<mapsto> algo) \<and>
         (case map_of (mappings c) key of
            None \<Rightarrow>
              trace w' = trace w @ [Mutex_Lock (mutex c), Map_Assign key algo,
                                    Mutex_Unlock (mutex c)] \<and>
              algos w' = algos w \<and> owned c' = insert algo (owned c)
          | Some old \<Rightarrow>
              trace w' = trace w @ [Mutex_Lock (mutex c), Algo_Delete old, Map_Assign key algo,
                                    Mutex_Unlock (mutex c)] \<and>
              algos w' = (algos w)(old := None) \<and> algos w old \<noteq> None \<and>
              owned c' = insert algo (owned c - {old}) \<and> old \<notin> owned c')"
    by blast
qed

theorem add_supersedes_witness:
  "adds [(1, []), (2, [])] (Algorithm_Cache_Impl 4) example_world =
     Inr (\<lparr>mutex = 4, mappings = [(''AES-128'', 2)]\<rparr>,
          example_world\<lparr>algos := [2 \<mapsto> ''AES-128'', 3 \<mapsto> ''''],
            trace := [Mutex_Lock 4, Map_Assign ''AES-128'' 1, Mutex_Unlock 4,
                      Mutex_Lock 4, Algo_Delete 1, Map_Assign ''AES-128'' 2, Mutex_Unlock 4]\<rparr>) \<and>
   distinct (map fst (mappings \<lparr>mutex = 4, mappings = [(''AES-128'', 2)]\<rparr>)) \<and>
   cache_ok example_cache example_world \<and> (2::ptr) \<noteq> 0 \<and>
   algos example_world 2 = Some ''AES-128'' \<and> 2 \<notin> owned example_cache \<and>
   (\<exists>c' w'. add 2 [] example_cache example_world = Inr (c', w') \<and>
      cache_ok c' w' \<and> distinct (map fst (mappings c')) \<and>
      map_of (mappings c') ''AES-128'' = Some 2 \<and>
      trace w' = [Mutex_Lock 4, Algo_Delete 1, Map_Assign ''AES-128'' 2, Mutex_Unlock 4] \<and>
      algos w' 1 = None \<and> 1 \<notin> owned c')"
proof -
  let ?c1 = "\<lparr>mutex = 4, mappings = [(''AES-128'', 2)]\<rparr>"
  let ?w1 = "example_world\<lparr>algos := [2 \<mapsto> ''AES-128'', 3 \<mapsto> ''''],
            trace := [Mutex_Lock 4, Map_Assign ''AES-128'' 1, Mutex_Unlock 4,
                      Mutex_Lock 4, Algo_Delete 1, Map_Assign ''AES-128'' 2, Mutex_Unlock 4]\<rparr>"
  have h0: "adds [(1, []), (2, [])] (Algorithm_Cache_Impl 4) example_world = Inr (?c1, ?w1)"
    by (simp add: Algorithm_Cache_Impl_def example_world_def add_def name_of_def delete_algo_def
          emit_def fun_upd_twist)
  have h1: "cache_ok example_cache example_world"
    by (simp add: cache_ok_def owned_def example_cache_def example_world_def)
  have h2: "(2::ptr) \<noteq> 0" by simp
  have h3: "algos example_world 2 = Some ''AES-128''"
    by (simp add: example_world_def)
  have h4: "2 \<notin> owned example_cache"
    by (simp add: owned_def example_cache_def)
  have h5: "''AES-128'' = (if [] \<noteq> ([]::string) then [] else ''AES-128'')" by simp
  have old: "map_of (mappings example_cache) ''AES-128'' = Some 1"
    by (simp add: example_cache_def)
  note t = add_supersedes [where m = 4 and w = example_world and calls = "[(1, []), (2, [])]"
      and ?c1.0 = ?c1 and ?w1.0 = ?w1 and c = example_cache and algo = 2 and idx = "[]"
      and ?c2.0 = ?c1 and ?w2.0 = ?w1 and nm = "''AES-128''" and key = "''AES-128''"]
  from t h0 have a: "distinct (map fst (mappings ?c1))"
    by blast
  from t h1 h2 h3 h4 h5
  have "\<exists>c' w'. add 2 [] example_cache example_world = Inr (c', w') \<and> cache_ok c' w' \<and>
         distinct (map fst (mappings c')) \<and>
         map_of (mappings c') = (map_of (mappings example_cache))(''AES-128'' \<mapsto> 2) \<and>
         (case map_of (mappings example_cache) ''AES-128'' of
            None \<Rightarrow>
              trace w' = trace example_world @
                [Mutex_Lock (mutex example_cache), Map_Assign ''AES-128'' 2,
                 Mutex_Unlock (mutex example_cache)] \<and>
              algos w' = algos example_world \<and> owned c' = insert 2 (owned example_cache)
          | Some old \<Rightarrow>
              trace w' = trace example_world @
                [Mutex_Lock (mutex example_cache), Algo_Delete old, Map_Assign ''AES-128'' 2,
                 Mutex_Unlock (mutex example_cache)] \<and>
              algos w' = (algos example_world)(old := None) \<and> algos example_world old \<noteq> None \<and>
              owned c' = insert 2 (owned example_cache - {old}) \<and> old \<notin> owned c')"
    by blast
  then obtain c' w' where "add 2 [] example_cache example_world = Inr (c', w')" "cache_ok c' w'"
    "distinct (map fst (mappings c'))"
    "map_of (mappings c') = (map_of (mappings example_cache))(''AES-128'' \<mapsto> 2)"
    "trace w' = trace example_world @
       [Mutex_Lock (mutex example_cache), Algo_Delete 1, Map_Assign ''AES-128'' 2,
        Mutex_Unlock (mutex example_cache)]"
    "algos w' = (algos example_world)(1 := None)" "1 \<notin> owned c'"
    unfolding old by auto
  then have "\<exists>c' w'. add 2 [] example_cache example_world = Inr (c', w') \<and>
      cache_ok c' w' \<and> distinct (map fst (mappings c')) \<and>
      map_of (mappings c') ''AES-128'' = Some 2 \<and>
      trace w' = [Mutex_Lock 4, Algo_Delete 1, Map_Assign ''AES-128'' 2, Mutex_Unlock 4] \<and>
      algos w' 1 = None \<and> 1 \<notin> owned c'"
    by (simp add: example_world_def example_cache_def)
  with h0 a h1 h2 h3 h4 show ?thesis by blast
qed

text \<open>
  The claim as stated fails in two ways.
  \<^item> \<open>add\<close> is handed the instance that the cache already maps under the key (the same
    pointer registered twice): the instance is destroyed and stays the current value for
    its name.
  \<^item> \<open>add\<close> is handed, under a second name, an instance that the cache already maps:
    nothing is destroyed, and the instance is mapped under two names. A later \<open>add\<close> of
    another instance under the first name destroys it while it is the current value for
    the second name.
\<close>

theorem add_supersedes_counterexample:
  "cache_ok example_cache example_world \<and>
   add 1 [] example_cache example_world =
     Inr (example_cache,
          example_world\<lparr>algos := [2 \<mapsto> ''AES-128'', 3 \<mapsto> ''''],
            trace := [Mutex_Lock 4, Algo_Delete 1, Map_Assign ''AES-128'' 1, Mutex_Unlock 4]\<rparr>) \<and>
   map_of (mappings example_cache) ''AES-128'' = Some 1 \<and>
   algos (example_world\<lparr>algos := [2 \<mapsto> ''AES-128'', 3 \<mapsto> ''''],
            trace := [Mutex_Lock 4, Algo_Delete 1, Map_Assign ''AES-128'' 1, Mutex_Unlock 4]\<rparr>) 1 =
     None \<and>
   add 1 ''AES-256'' example_cache example_world =
     Inr (example_shared_cache,
          example_world\<lparr>trace := [Mutex_Lock 4, Map_Assign ''AES-256'' 1, Mutex_Unlock 4]\<rparr>) \<and>
   add 2 [] example_shared_cache
       (example_world\<lparr>trace := [Mutex_Lock 4, Map_Assign ''AES-256'' 1, Mutex_Unlock 4]\<rparr>) =
     Inr (\<lparr>mutex = 4, mappings = [(''AES-128'', 2), (''AES-256'', 1)]\<rparr>,
          example_world\<lparr>algos := [2 \<mapsto> ''AES-128'', 3 \<mapsto> ''''],
            trace := [Mutex_Lock 4, Map_Assign ''AES-256'' 1, Mutex_Unlock 4,
                      Mutex_Lock 4, Algo_Delete 1, Map_Assign ''AES-128'' 2, Mutex_Unlock 4]\<rparr>) \<and>
   map_of [(''AES-128'', 2), (''AES-256'', 1 :: ptr)] ''AES-256'' = Some 1"
  by (simp add: cache_ok_def owned_def example_cache_def example_shared_cache_def
        example_world_def add_def name_of_def delete_algo_def emit_def fun_upd_twist)

subsection \<open>Teardown\<close>




subsection \<open>The key of an insertion\<close>

text \<open>
  C5. For every \<open>add\<close> of a non-null pointer to a live instance (into a cache whose
  mapped instances are alive, so that no \<open>delete\<close> can fault): the entry is stored
  under the supplied name when one is given (\<open>index_name\<close> is not the default, the
  empty string), and otherwise under what the instance's \<open>name()\<close> returns. Every
  \<open>add_algorithm\<close> overload passes no name, so it stores the entry under the
  instance's own name.
\<close>

theorem add_key:
  assumes "algo \<noteq> 0" and "algos w algo = Some nm" and "owned c \<subseteq> dom (algos w)"
  shows "(idx \<noteq> [] \<longrightarrow>
            (\<exists>w'. add algo idx c w = Inr (c\<lparr>mappings := map_assign idx algo (mappings c)\<rparr>, w')) \<and>
            map_of (map_assign idx algo (mappings c)) idx = Some algo) \<and>
         (idx = [] \<longrightarrow>
            (\<exists>w'. add algo idx c w = Inr (c\<lparr>mappings := map_assign nm algo (mappings c)\<rparr>, w')) \<and>
            map_of (map_assign nm algo (mappings c)) nm = Some algo) \<and>
         (\<forall>k e. cache_slot k e = Some c \<longrightarrow>
            (\<exists>w'. add_algorithm k algo e w =
               Inr (set_slot k (c\<lparr>mappings := map_assign nm algo (mappings c)\<rparr>) e, w')))"
proof (intro conjI impI allI)
  assume "idx \<noteq> []"
  then show "\<exists>w'. add algo idx c w = Inr (c\<lparr>mappings := map_assign idx algo (mappings c)\<rparr>, w')"
    using add_succeeds [OF assms(1) _ assms(3), of idx idx] by simp
next
  assume "idx = []"
  then show "\<exists>w'. add algo idx c w = Inr (c\<lparr>mappings := map_assign nm algo (mappings c)\<rparr>, w')"
    using add_succeeds [OF assms(1) _ assms(3), of idx nm] assms(2) by simp
next
  fix k e
  assume "cache_slot k e = Some c"
  moreover obtain w' where "add algo [] c w = Inr (c\<lparr>mappings := map_assign nm algo (mappings c)\<rparr>, w')"
    using add_succeeds [OF assms(1) _ assms(3), of "[]" nm] assms(2) by auto
  ultimately show "\<exists>w'. add_algorithm k algo e w =
               Inr (set_slot k (c\<lparr>mappings := map_assign nm algo (mappings c)\<rparr>) e, w')"
    by (simp add: add_algorithm_unfold)
qed (simp_all add: map_of_map_assign)

theorem add_key_witness:
  "(2::nat) \<noteq> 0 \<and> algos example_world 2 = Some ''AES-128'' \<and>
   owned example_cache \<subseteq> dom (algos example_world) \<and>
   (\<exists>w'. add 2 ''AES-256'' example_cache example_world =
      Inr (example_cache\<lparr>mappings := [(''AES-128'', 1), (''AES-256'', 2)]\<rparr>, w')) \<and>
   (\<exists>w'. add 2 [] example_cache example_world =
      Inr (example_cache\<lparr>mappings := [(''AES-128'', 2)]\<rparr>, w')) \<and>
   (\<exists>w'. add_algorithm Block_Cipher 2 example_engine example_world =
      Inr (example_engine\<lparr>cache_of_bc := Some (example_cache\<lparr>mappings := [(''AES-128'', 2)]\<rparr>)\<rparr>, w'))"
proof -
  have h1: "(2::nat) \<noteq> 0" by simp
  have h2: "algos example_world 2 = Some ''AES-128''"
    by (simp add: example_world_def)
  have h3: "owned example_cache \<subseteq> dom (algos example_world)"
    by (simp add: owned_def example_cache_def example_world_def)
  have slot: "cache_slot Block_Cipher example_engine = Some example_cache"
    by (simp add: cache_slot_def example_engine_def)
  have m1: "map_assign ''AES-256'' 2 (mappings example_cache) = [(''AES-128'', 1), (''AES-256'', 2)]"
    and m2: "map_assign ''AES-128'' 2 (mappings example_cache) = [(''AES-128'', 2)]"
    by (simp_all add: example_cache_def)
  have s: "set_slot Block_Cipher c example_engine = example_engine\<lparr>cache_of_bc := Some c\<rparr>" for c
    by (simp add: set_slot_def)
  from add_key [OF h1 h2 h3, of "''AES-256''"]
  have a: "\<exists>w'. add 2 ''AES-256'' example_cache example_world =
      Inr (example_cache\<lparr>mappings := [(''AES-128'', 1), (''AES-256'', 2)]\<rparr>, w')"
    unfolding m1 by simp
  from add_key [OF h1 h2 h3, of "[]"]
  have b: "\<exists>w'. add 2 [] example_cache example_world =
      Inr (example_cache\<lparr>mappings := [(''AES-128'', 2)]\<rparr>, w')"
    and "\<forall>k e. cache_slot k e = Some example_cache \<longrightarrow>
            (\<exists>w'. add_algorithm k 2 e example_world =
               Inr (set_slot k (example_cache\<lparr>mappings := [(''AES-128'', 2)]\<rparr>) e, w'))"
    unfolding m2 by simp_all
  with slot have c: "\<exists>w'. add_algorithm Block_Cipher 2 example_engine example_world =
      Inr (example_engine\<lparr>cache_of_bc := Some (example_cache\<lparr>mappings := [(''AES-128'', 2)]\<rparr>)\<rparr>, w')"
    unfolding s [symmetric] by blast
  from h1 h2 h3 a b c show ?thesis by blast
qed

subsection \<open>The null pointer\<close>

text \<open>
  C6. For every cache state, every name and every world, \<open>add\<close> with the null pointer
  returns at once: the cache and the world (live objects and trace, so not even the
  lock is taken) are what they were.
\<close>

theorem add_null_noop: "add 0 index_name c w = Inr (c, w)"
  by (simp add: add_def)

subsection \<open>An engine that was not initialized\<close>




subsection \<open>Construction and initialization\<close>

text \<open>
  C8. The constructor leaves the four cache slots null. One call of \<open>initialize\<close>
  fills the four slots with empty caches. For every factory \<open>mf\<close>, the factory is
  called four times in a row, and the four caches hold the four results in the order
  block cipher, stream cipher, hash function, MAC. With the factory \<open>mf_make\<close> the
  trace grows by exactly four \<open>Mutex_Make\<close> events and the four mutexes differ from
  each other.
\<close>

theorem initialize_four_caches:
  "cache_of_bc Engine = None \<and> cache_of_sc Engine = None \<and>
   cache_of_hf Engine = None \<and> cache_of_mac Engine = None \<and>
   initialize mf e w =
     (\<lparr>cache_of_bc = Some \<lparr>mutex = fst (mf w), mappings = []\<rparr>,
       cache_of_sc = Some \<lparr>mutex = fst (mf (snd (mf w))), mappings = []\<rparr>,
       cache_of_hf = Some \<lparr>mutex = fst (mf (snd (mf (snd (mf w))))), mappings = []\<rparr>,
       cache_of_mac = Some \<lparr>mutex = fst (mf (snd (mf (snd (mf (snd (mf w))))))), mappings = []\<rparr>\<rparr>,
      snd (mf (snd (mf (snd (mf (snd (mf w)))))))) \<and>
   initialize mf_make e w =
     (\<lparr>cache_of_bc = Some \<lparr>mutex = next_addr w + 1, mappings = []\<rparr>,
       cache_of_sc = Some \<lparr>mutex = next_addr w + 2, mappings = []\<rparr>,
       cache_of_hf = Some \<lparr>mutex = next_addr w + 3, mappings = []\<rparr>,
       cache_of_mac = Some \<lparr>mutex = next_addr w + 4, mappings = []\<rparr>\<rparr>,
      w\<lparr>mutexes := mutexes w \<union>
           {next_addr w + 1, next_addr w + 2, next_addr w + 3, next_addr w + 4},
        next_addr := next_addr w + 4,
        trace := trace w @ [Mutex_Make (next_addr w + 1), Mutex_Make (next_addr w + 2),
                            Mutex_Make (next_addr w + 3), Mutex_Make (next_addr w + 4)]\<rparr>)"
proof -
  have "initialize mf e w =
     (\<lparr>cache_of_bc = Some \<lparr>mutex = fst (mf w), mappings = []\<rparr>,
       cache_of_sc = Some \<lparr>mutex = fst (mf (snd (mf w))), mappings = []\<rparr>,
       cache_of_hf = Some \<lparr>mutex = fst (mf (snd (mf (snd (mf w))))), mappings = []\<rparr>,
       cache_of_mac = Some \<lparr>mutex = fst (mf (snd (mf (snd (mf (snd (mf w))))))), mappings = []\<rparr>\<rparr>,
      snd (mf (snd (mf (snd (mf (snd (mf w))))))))"
    unfolding initialize_calls Algorithm_Cache_Impl_def ..
  then show ?thesis
    by (simp add: Engine_def initialize_result Algorithm_Cache_Impl_def)
qed

subsection \<open>Views of cached instances\<close>

text \<open>
  C9 (amended). Let a cache be in order (\<open>cache_ok\<close>: the keys increase strictly, no
  instance is mapped under two names, every mapped instance is non-null and alive) and
  let it map \<open>name\<close> to the pointer \<open>view\<close>. Then \<open>get\<close> returns \<open>view\<close>, and so
  does every acquisition method whose slot holds the cache, for a request with that
  canonical string; the instance behind \<open>view\<close> is alive.

  Let any sequence of calls of \<open>add\<close> follow, of pairwise different non-null pointers to
  live instances that the cache does not own. No call faults, and the cache is in order
  afterwards. If none of the calls stores under \<open>name\<close>, the instance behind \<open>view\<close> is
  alive afterwards and still mapped under \<open>name\<close>. If one of the calls stores under
  \<open>name\<close>, the instance behind \<open>view\<close> has been destroyed, whatever calls came after
  that one: the code keeps no instance alive for a view that a caller still holds, and
  the pointer handed out dangles.
\<close>

theorem view_after_add:
  assumes "cache_ok c w" and "map_of (mappings c) name = Some view"
    and "distinct (map fst calls)"
    and "\<forall>a \<in> set calls. fst a \<noteq> 0 \<and> algos w (fst a) \<noteq> None \<and> fst a \<notin> owned c"
  shows "fst (get c name w) = view \<and> algos (snd (get c name w)) view \<noteq> None \<and>
         (\<forall>k e search request af. cache_slot k e = Some c \<and> as_string request = name \<longrightarrow>
            acquire k search request af e w = Inr (view, e, snd (get c name w))) \<and>
         (\<exists>c' w'. adds calls c (snd (get c name w)) = Inr (c', w') \<and> cache_ok c' w' \<and>
            dom (map_of (mappings c')) =
              dom (map_of (mappings c)) \<union> {k. Some k \<in> key_of w ` set calls} \<and>
            (if Some name \<in> key_of w ` set calls
             then algos w' view = None \<and> view \<notin> owned c'
             else algos w' view = algos w view \<and> algos w' view \<noteq> None \<and>
                  map_of (mappings c') name = Some view))"
proof -
  let ?w1 = "w\<lparr>trace := trace w @ [Mutex_Lock (mutex c), Mutex_Unlock (mutex c)]\<rparr>"
  have g: "get c name w = (view, ?w1)"
    by (simp add: get_result search_map_def assms(2))
  have view: "view \<in> owned c" using assms(2) by (rule map_of_owned)
  with assms(1) have live: "algos w view \<noteq> None" and nonnull: "0 \<notin> owned c"
    by (auto simp: cache_ok_def)
  have acq: "\<forall>k e search request af. cache_slot k e = Some c \<and> as_string request = name \<longrightarrow>
               acquire k search request af e w = Inr (view, e, ?w1)"
  proof (intro allI impI)
    fix k e search request af
    assume "cache_slot k e = Some c \<and> as_string request = name"
    with assms(2) have "cache_slot k e = Some c"
      "map_of (mappings c) (as_string request) = Some view"
      by simp_all
    then show "acquire k search request af e w = Inr (view, e, ?w1)"
      using nonnull by (rule acquire_cached)
  qed
  have g1: "fst (get c name w) = view" "snd (get c name w) = ?w1"
    by (simp_all add: g)
  have ok: "cache_ok c ?w1" using assms(1) by simp
  have rest: "\<forall>a \<in> set calls. fst a \<noteq> 0 \<and> algos ?w1 (fst a) \<noteq> None \<and> fst a \<notin> owned c"
    using assms(4) by simp
  have alg: "algos ?w1 = algos w" by simp
  from adds_effect [OF ok assms(3) rest]
  have "\<exists>c' w'. adds calls c ?w1 = Inr (c', w') \<and> cache_ok c' w' \<and>
          dom (map_of (mappings c')) =
            dom (map_of (mappings c)) \<union> {k. Some k \<in> key_of w ` set calls} \<and>
          (\<forall>name view. map_of (mappings c) name = Some view \<longrightarrow>
             (if Some name \<in> key_of w ` set calls
              then algos w' view = None
              else algos w' view = algos w view \<and> map_of (mappings c') name = Some view))"
    unfolding alg key_of_trace by blast
  then obtain c' w' where adds: "adds calls c ?w1 = Inr (c', w')" and ok': "cache_ok c' w'"
    and dom': "dom (map_of (mappings c')) =
                 dom (map_of (mappings c)) \<union> {k. Some k \<in> key_of w ` set calls}"
    and all: "\<And>name view. map_of (mappings c) name = Some view \<Longrightarrow>
                (if Some name \<in> key_of w ` set calls
                 then algos (w' :: world) view = None
                 else algos w' view = algos w view \<and> map_of (mappings c') name = Some view)"
    by blast
  note view' = all [OF assms(2)]
  have fin: "if Some name \<in> key_of w ` set calls
             then algos w' view = None \<and> view \<notin> owned c'
             else algos w' view = algos w view \<and> algos w' view \<noteq> None \<and>
                  map_of (mappings c') name = Some view"
  proof (cases "Some name \<in> key_of w ` set calls")
    case True
    with view' have dead: "algos w' view = None" by simp
    from ok' have "owned c' \<subseteq> dom (algos w')" by (simp add: cache_ok_def)
    with dead have "view \<notin> owned c'" by auto
    with dead True show ?thesis by simp
  next
    case False
    with view' live show ?thesis by simp
  qed
  from adds ok' dom' fin
  have ex: "\<exists>c' w'. adds calls c ?w1 = Inr (c', w') \<and> cache_ok c' w' \<and>
            dom (map_of (mappings c')) =
              dom (map_of (mappings c)) \<union> {k. Some k \<in> key_of w ` set calls} \<and>
            (if Some name \<in> key_of w ` set calls
             then algos w' view = None \<and> view \<notin> owned c'
             else algos w' view = algos w view \<and> algos w' view \<noteq> None \<and>
                  map_of (mappings c') name = Some view)"
    by blast
  have live1: "algos ?w1 view \<noteq> None"
    using live by simp
  from live1 acq ex show ?thesis
    unfolding g1 by blast
qed

theorem view_after_add_witness:
  "cache_ok example_cache example_world \<and>
   map_of (mappings example_cache) ''AES-128'' = Some 1 \<and>
   distinct (map fst [(2 :: ptr, ''AES-256''), (3, [])]) \<and>
   algos example_world 2 \<noteq> None \<and> algos example_world 3 \<noteq> None \<and>
   2 \<notin> owned example_cache \<and> 3 \<notin> owned example_cache \<and>
   key_of example_world (2, ''AES-256'') = Some ''AES-256'' \<and>
   key_of example_world (3, []) = Some [] \<and>
   fst (get example_cache ''AES-128'' example_world) = 1 \<and>
   (\<exists>c' w'. adds [(2, ''AES-256''), (3, [])] example_cache
                (snd (get example_cache ''AES-128'' example_world)) = Inr (c', w') \<and>
      algos w' 1 = Some ''AES-128'' \<and> map_of (mappings c') ''AES-128'' = Some 1) \<and>
   key_of example_world (2, []) = Some ''AES-128'' \<and>
   (\<exists>c' w'. adds [(2, []), (3, [])] example_cache
                (snd (get example_cache ''AES-128'' example_world)) = Inr (c', w') \<and>
      algos w' 1 = None \<and> 1 \<notin> owned c')"
proof -
  have h1: "cache_ok example_cache example_world"
    by (simp add: cache_ok_def owned_def example_cache_def example_world_def)
  have h2: "map_of (mappings example_cache) ''AES-128'' = Some 1"
    by (simp add: example_cache_def)
  have h3: "distinct (map fst [(2 :: ptr, ''AES-256''), (3, [])])"
    and h3': "distinct (map fst [(2 :: ptr, []), (3, [])])"
    by simp_all
  have live: "algos example_world 2 \<noteq> None" "algos example_world 3 \<noteq> None"
    and notown: "2 \<notin> owned example_cache" "3 \<notin> owned example_cache"
    by (simp_all add: example_world_def owned_def example_cache_def)
  have h4: "\<forall>a \<in> set [(2 :: ptr, ''AES-256''), (3, [])].
              fst a \<noteq> 0 \<and> algos example_world (fst a) \<noteq> None \<and> fst a \<notin> owned example_cache"
    and h4': "\<forall>a \<in> set [(2 :: ptr, []), (3, [])].
              fst a \<noteq> 0 \<and> algos example_world (fst a) \<noteq> None \<and> fst a \<notin> owned example_cache"
    using live notown by simp_all
  have k: "key_of example_world (2, ''AES-256'') = Some ''AES-256''"
    "key_of example_world (3, []) = Some []" "key_of example_world (2, []) = Some ''AES-128''"
    by (simp_all add: key_of_def example_world_def)
  have one: "algos example_world (Suc 0) = Some ''AES-128''"
    by (simp add: example_world_def)
  from view_after_add [OF h1 h2 h3 h4]
  have a: "fst (get example_cache ''AES-128'' example_world) = 1 \<and>
   (\<exists>c' w'. adds [(2, ''AES-256''), (3, [])] example_cache
                (snd (get example_cache ''AES-128'' example_world)) = Inr (c', w') \<and>
      algos w' 1 = Some ''AES-128'' \<and> map_of (mappings c') ''AES-128'' = Some 1)"
    by (simp add: k one) blast
  from view_after_add [OF h1 h2 h3' h4']
  have b: "\<exists>c' w'. adds [(2, []), (3, [])] example_cache
                (snd (get example_cache ''AES-128'' example_world)) = Inr (c', w') \<and>
      algos w' 1 = None \<and> 1 \<notin> owned c'"
    by (simp add: k) blast
  from h1 h2 h3 live notown k a b show ?thesis by blast
qed

text \<open>
  The claim as stated fails as soon as an \<open>add\<close> supersedes the entry: \<open>get\<close> hands
  out the pointer 1 to a live instance, a second instance with the same name is
  registered, and the instance behind the pointer 1 is destroyed. In a cache that maps
  one instance under two names, the view handed out for one name is destroyed by an
  \<open>add\<close> that stores under the other.
\<close>

theorem view_after_add_counterexample:
  "get example_cache ''AES-128'' example_world =
     (1, example_world\<lparr>trace := [Mutex_Lock 4, Mutex_Unlock 4]\<rparr>) \<and>
   algos (example_world\<lparr>trace := [Mutex_Lock 4, Mutex_Unlock 4]\<rparr>) 1 = Some ''AES-128'' \<and>
   add 2 [] example_cache (example_world\<lparr>trace := [Mutex_Lock 4, Mutex_Unlock 4]\<rparr>) =
     Inr (example_cache\<lparr>mappings := [(''AES-128'', 2)]\<rparr>,
          example_world\<lparr>algos := [2 \<mapsto> ''AES-128'', 3 \<mapsto> ''''],
            trace := [Mutex_Lock 4, Mutex_Unlock 4,
                      Mutex_Lock 4, Algo_Delete 1, Map_Assign ''AES-128'' 2, Mutex_Unlock 4]\<rparr>) \<and>
   algos (example_world\<lparr>algos := [2 \<mapsto> ''AES-128'', 3 \<mapsto> ''''],
            trace := [Mutex_Lock 4, Mutex_Unlock 4,
                      Mutex_Lock 4, Algo_Delete 1, Map_Assign ''AES-128'' 2, Mutex_Unlock 4]\<rparr>) 1 =
     None \<and>
   get example_shared_cache ''AES-256'' example_world =
     (1, example_world\<lparr>trace := [Mutex_Lock 4, Mutex_Unlock 4]\<rparr>) \<and>
   add 2 [] example_shared_cache (example_world\<lparr>trace := [Mutex_Lock 4, Mutex_Unlock 4]\<rparr>) =
     Inr (example_shared_cache\<lparr>mappings := [(''AES-128'', 2), (''AES-256'', 1)]\<rparr>,
          example_world\<lparr>algos := [2 \<mapsto> ''AES-128'', 3 \<mapsto> ''''],
            trace := [Mutex_Lock 4, Mutex_Unlock 4,
                      Mutex_Lock 4, Algo_Delete 1, Map_Assign ''AES-128'' 2, Mutex_Unlock 4]\<rparr>)"
  by (simp add: get_result search_map_def example_cache_def example_shared_cache_def
        example_world_def add_def name_of_def delete_algo_def emit_def fun_upd_twist)

subsection \<open>The empty string as a name\<close>

text \<open>
  C10 (amended). For every non-null pointer to a live instance, \<open>add\<close> with the empty
  string as explicit name is a call with the default argument, the call that every
  \<open>add_algorithm\<close> overload makes: the entry is stored under the instance's own name,
  and the keys afterwards are the keys before and that name. The empty string is a key
  afterwards only if it was one before or is the instance's own name.
\<close>

theorem add_empty_name:
  assumes "algo \<noteq> 0" and "algos w algo = Some nm" and "owned c \<subseteq> dom (algos w)"
  shows "(\<exists>w'. add algo [] c w = Inr (c\<lparr>mappings := map_assign nm algo (mappings c)\<rparr>, w')) \<and>
         map_of (map_assign nm algo (mappings c)) nm = Some algo \<and>
         set (map fst (map_assign nm algo (mappings c))) = insert nm (set (map fst (mappings c))) \<and>
         ([] \<in> set (map fst (map_assign nm algo (mappings c))) \<longleftrightarrow>
            nm = [] \<or> [] \<in> set (map fst (mappings c))) \<and>
         (\<forall>k e. cache_slot k e = Some c \<longrightarrow>
            add_algorithm k algo e w =
              (case add algo [] c w of
                 Inl f \<Rightarrow> Inl f
               | Inr (c', w') \<Rightarrow> Inr (set_slot k c' e, w')))"
proof (intro conjI allI impI)
  show "\<exists>w'. add algo [] c w = Inr (c\<lparr>mappings := map_assign nm algo (mappings c)\<rparr>, w')"
    using add_succeeds [OF assms(1) _ assms(3), of "[]" nm] assms(2) by simp
  show "[] \<in> set (map fst (map_assign nm algo (mappings c))) \<longleftrightarrow>
            nm = [] \<or> [] \<in> set (map fst (mappings c))"
    by (auto simp: keys_map_assign)
qed (simp_all add: map_of_map_assign keys_map_assign add_algorithm_unfold)

theorem add_empty_name_witness:
  "(2::ptr) \<noteq> 0 \<and> algos example_world 2 = Some ''AES-128'' \<and>
   owned example_cache \<subseteq> dom (algos example_world) \<and>
   (\<exists>w'. add 2 [] example_cache example_world =
      Inr (example_cache\<lparr>mappings := [(''AES-128'', 2)]\<rparr>, w')) \<and>
   [] \<notin> set (map fst (map_assign ''AES-128'' 2 (mappings example_cache)))"
proof -
  have h1: "(2::ptr) \<noteq> 0" by simp
  have h2: "algos example_world 2 = Some ''AES-128''"
    by (simp add: example_world_def)
  have h3: "owned example_cache \<subseteq> dom (algos example_world)"
    by (simp add: owned_def example_cache_def example_world_def)
  have m: "map_assign ''AES-128'' 2 (mappings example_cache) = [(''AES-128'', 2)]"
    by (simp add: example_cache_def)
  have k: "[] \<notin> set (map fst (mappings example_cache))"
    by (simp add: example_cache_def)
  from add_empty_name [OF h1 h2 h3]
  have "(\<exists>w'. add 2 [] example_cache example_world =
      Inr (example_cache\<lparr>mappings := [(''AES-128'', 2)]\<rparr>, w')) \<and>
   [] \<notin> set (map fst (map_assign ''AES-128'' 2 (mappings example_cache)))"
    using k unfolding m by simp
  with h1 h2 h3 show ?thesis by blast
qed

text \<open>
  The claim as stated fails for an instance whose \<open>name()\<close> is the empty string: the
  empty string becomes a key of the cache.
\<close>

theorem add_empty_name_counterexample:
  "algos example_world 3 = Some [] \<and>
   add 3 [] (Algorithm_Cache_Impl 5) example_world =
     Inr (\<lparr>mutex = 5, mappings = [([], 3)]\<rparr>,
          example_world\<lparr>trace := [Mutex_Lock 5, Map_Assign [] 3, Mutex_Unlock 5]\<rparr>)"
  by (simp add: Algorithm_Cache_Impl_def example_world_def add_def name_of_def emit_def)

end
